theory Spec2Isabelle
  imports Main "HOL-Library.Monad_Syntax"
begin

section \<open>Text as lists of code points\<close>

text \<open>
  A Python \<open>str\<close> is a sequence of Unicode code points, so a text is a list of
  natural numbers. The em dash is U+2014. Literals are written as HOL strings and
  converted with \<open>str\<close>.

  Whitespace is the full table that \<open>str.strip\<close>, \<open>str.isspace\<close> and the pattern class
  \<open>\s\<close> share.
\<close>

type_synonym ustr = "nat list"

definition str :: "string \<Rightarrow> ustr" where
  "str s = map of_char s"

definition em_dash :: nat where
  "em_dash = 8212"

definition is_space :: "nat \<Rightarrow> bool" where
  "is_space c \<longleftrightarrow>
     (9 \<le> c \<and> c \<le> 13) \<or> (28 \<le> c \<and> c \<le> 32) \<or> c = 133 \<or> c = 160 \<or> c = 5760 \<or>
     (8192 \<le> c \<and> c \<le> 8202) \<or> c = 8232 \<or> c = 8233 \<or> c = 8239 \<or> c = 8287 \<or> c = 12288"

text \<open>
  Letter case and the word class are not part of the program: they are tables of the
  Unicode database that comes with the interpreter. They are a parameter \<open>U\<close> of
  everything that uses them:

  \<^item> \<open>is_word U c\<close>: the class \<open>\w\<close> holds \<open>c\<close>, which also decides where \<open>\b\<close> matches;
  \<^item> \<open>folds U d c\<close>: under \<open>re.IGNORECASE\<close> the pattern character \<open>d\<close> matches the
    code point \<open>c\<close>;
  \<^item> \<open>upper U s\<close>, \<open>lower U s\<close>, \<open>islower U s\<close>: \<open>s.upper()\<close>, \<open>s.lower()\<close>, \<open>s.islower()\<close>,
    on whole strings, since one code point may become several (U+00DF becomes
    \<open>SS\<close>) and the result may depend on the neighbours (the final sigma).
\<close>

record unicode =
  is_word :: "nat \<Rightarrow> bool"
  folds :: "nat \<Rightarrow> nat \<Rightarrow> bool"
  upper :: "ustr \<Rightarrow> ustr"
  lower :: "ustr \<Rightarrow> ustr"
  islower :: "ustr \<Rightarrow> bool"

definition strip :: "ustr \<Rightarrow> ustr" where
  "strip s = rev (dropWhile is_space (rev (dropWhile is_space s)))"

text \<open>\<open>s.split(sep)\<close> for a separator of one code point: always at least one part.\<close>

fun split_on :: "nat \<Rightarrow> ustr \<Rightarrow> ustr list" where
  "split_on sep [] = [[]]"
| "split_on sep (c # cs) =
     (if c = sep then [] # split_on sep cs
      else (case split_on sep cs of [] \<Rightarrow> [[c]] | p # ps \<Rightarrow> (c # p) # ps))"

fun join :: "ustr \<Rightarrow> ustr list \<Rightarrow> ustr" where
  "join sep [] = []"
| "join sep [p] = p"
| "join sep (p # q # ps) = p @ sep @ join sep (q # ps)"

text \<open>\<open>s[i]\<close> raises IndexError out of range; an exception is the value \<open>None\<close>.\<close>

definition index :: "ustr \<Rightarrow> nat \<Rightarrow> nat option" where
  "index s i = (if i < length s then Some (s ! i) else None)"

text \<open>\<open>p in s\<close> on strings: \<open>p\<close> occurs as a contiguous slice of \<open>s\<close>.\<close>

fun starts_with :: "ustr \<Rightarrow> ustr \<Rightarrow> bool" where
  "starts_with [] s = True"
| "starts_with (p # ps) [] = False"
| "starts_with (p # ps) (c # cs) = (p = c \<and> starts_with ps cs)"

fun contains :: "ustr \<Rightarrow> ustr \<Rightarrow> bool" where
  "contains p [] = (p = [])"
| "contains p (c # cs) = (starts_with p (c # cs) \<or> contains p cs)"

section \<open>The regular expressions of the \<open>re\<close> module\<close>

text \<open>
  The patterns of the program use literals, character classes, concatenation,
  alternation, the greedy optional \<open>?\<close>, greedy repetition \<open>{n,}\<close>, \<open>+\<close>, \<open>*\<close> of a
  character class, one capturing group, and the assertions \<open>\b\<close>, \<open>^\<close>, \<open>$\<close>.
  \<open>re\<close> is a backtracking matcher: the alternatives at a position are tried in a fixed
  order and the first one that lets the whole pattern succeed wins. The function \<open>ms\<close>
  returns every way a pattern can match at a position, in that order.
\<close>

datatype citem = CChar nat | CRange nat nat | CSpace

datatype regex =
    Eps
  | Chr nat
  | Cls "citem list"
  | Seq regex regex
  | Alt regex regex
  | Opt regex
  | Rep nat "citem list"
  | Grp nat regex
  | WordB
  | Bol
  | Eol

record flags =
  ignorecase :: bool
  multiline :: bool

definition no_flags :: flags where
  "no_flags = \<lparr>ignorecase = False, multiline = False\<rparr>"

definition IGNORECASE :: flags where
  "IGNORECASE = \<lparr>ignorecase = True, multiline = False\<rparr>"

definition MULTILINE :: flags where
  "MULTILINE = \<lparr>ignorecase = False, multiline = True\<rparr>"

fun citem_has :: "citem \<Rightarrow> nat \<Rightarrow> bool" where
  "citem_has (CChar d) c = (c = d)"
| "citem_has (CRange lo hi) c = (lo \<le> c \<and> c \<le> hi)"
| "citem_has CSpace c = is_space c"

text \<open>
  A pattern character matches itself and, under \<open>re.IGNORECASE\<close>, what the table folds
  it to; a member of a class does the same, and \<open>\s\<close> has no case.
\<close>

definition chr_eq :: "unicode \<Rightarrow> flags \<Rightarrow> nat \<Rightarrow> nat \<Rightarrow> bool" where
  "chr_eq U f d c \<longleftrightarrow> (if ignorecase f then c = d \<or> folds U d c else c = d)"

fun citem_folds :: "unicode \<Rightarrow> citem \<Rightarrow> nat \<Rightarrow> bool" where
  "citem_folds U (CChar d) c = folds U d c"
| "citem_folds U (CRange lo hi) c = list_ex (\<lambda>d. folds U d c) [lo..<Suc hi]"
| "citem_folds U CSpace c = False"

definition cls_has :: "unicode \<Rightarrow> flags \<Rightarrow> citem list \<Rightarrow> nat \<Rightarrow> bool" where
  "cls_has U f cs c \<longleftrightarrow>
     list_ex (\<lambda>i. if ignorecase f then citem_has i c \<or> citem_folds U i c else citem_has i c) cs"

text \<open>
  A matcher state: the text before the position (reversed, nearest code point first),
  the text after it, and the groups captured so far.
\<close>

type_synonym mstate = "ustr \<times> ustr \<times> (nat \<times> ustr) list"

definition at_boundary :: "unicode \<Rightarrow> ustr \<Rightarrow> ustr \<Rightarrow> bool" where
  "at_boundary U b a \<longleftrightarrow>
     (case b of [] \<Rightarrow> False | x # _ \<Rightarrow> is_word U x) \<noteq> (case a of [] \<Rightarrow> False | y # _ \<Rightarrow> is_word U y)"

definition at_bol :: "flags \<Rightarrow> ustr \<Rightarrow> bool" where
  "at_bol f b \<longleftrightarrow> (case b of [] \<Rightarrow> True | x # _ \<Rightarrow> multiline f \<and> x = 10)"

definition at_eol :: "flags \<Rightarrow> ustr \<Rightarrow> bool" where
  "at_eol f a \<longleftrightarrow> (case a of [] \<Rightarrow> True | y # ys \<Rightarrow> y = 10 \<and> (multiline f \<or> ys = []))"

text \<open>Greedy repetition of a class, at least \<open>n\<close> times: the longest run first.\<close>

fun rep_run :: "(nat \<Rightarrow> bool) \<Rightarrow> nat \<Rightarrow> mstate \<Rightarrow> mstate list" where
  "rep_run p n (b, [], g) = (if n = 0 then [(b, [], g)] else [])"
| "rep_run p n (b, c # cs, g) =
     (if p c then rep_run p (n - 1) (c # b, cs, g) else []) @
     (if n = 0 then [(b, c # cs, g)] else [])"

fun ms :: "unicode \<Rightarrow> flags \<Rightarrow> regex \<Rightarrow> mstate \<Rightarrow> mstate list" where
  "ms U f Eps s = [s]"
| "ms U f (Chr d) (b, a, g) =
     (case a of [] \<Rightarrow> [] | c # cs \<Rightarrow> if chr_eq U f d c then [(c # b, cs, g)] else [])"
| "ms U f (Cls ds) (b, a, g) =
     (case a of [] \<Rightarrow> [] | c # cs \<Rightarrow> if cls_has U f ds c then [(c # b, cs, g)] else [])"
| "ms U f (Seq r1 r2) s = concat (map (ms U f r2) (ms U f r1 s))"
| "ms U f (Alt r1 r2) s = ms U f r1 s @ ms U f r2 s"
| "ms U f (Opt r) s = ms U f r s @ [s]"
| "ms U f (Rep n ds) s = rep_run (cls_has U f ds) n s"
| "ms U f (Grp i r) (b, a, g) =
     map (\<lambda>(b', a', g'). (b', a', (i, take (length a - length a') a) # g')) (ms U f r (b, a, g))"
| "ms U f WordB (b, a, g) = (if at_boundary U b a then [(b, a, g)] else [])"
| "ms U f Bol (b, a, g) = (if at_bol f b then [(b, a, g)] else [])"
| "ms U f Eol (b, a, g) = (if at_eol f a then [(b, a, g)] else [])"

text \<open>
  A match object: the matched text (group 0) and the captured groups.
  \<open>match_here\<close> is the match the engine reports at one position: the first way the
  pattern matches there, skipping an empty one when the search must advance.
\<close>

type_synonym rmatch = "ustr \<times> (nat \<times> ustr) list"

definition match_here :: "unicode \<Rightarrow> flags \<Rightarrow> regex \<Rightarrow> bool \<Rightarrow> ustr \<Rightarrow> ustr \<Rightarrow> (nat \<times> (nat \<times> ustr) list) option" where
  "match_here U f r adv b a =
     (case filter (\<lambda>(n, g). \<not> adv \<or> 0 < n)
             (map (\<lambda>(b', a', g'). (length a - length a', g')) (ms U f r (b, a, []))) of
        [] \<Rightarrow> None
      | x # _ \<Rightarrow> Some x)"

datatype seg = Txt nat | Mat rmatch

text \<open>
  The scan that \<open>re.sub\<close> and \<open>re.findall\<close> share: from left to right, the leftmost match
  is taken and the search resumes at its end; after an empty match the next match at
  the same position must be non-empty. The result lists the matches and the code points
  between them, in text order.
\<close>

function scan :: "unicode \<Rightarrow> flags \<Rightarrow> regex \<Rightarrow> bool \<Rightarrow> ustr \<Rightarrow> ustr \<Rightarrow> seg list" where
  "scan U f r adv b a =
     (case match_here U f r adv b a of
        Some (n, g) \<Rightarrow>
          Mat (take n a, g) #
            (if n = 0 then (if adv then [] else scan U f r True b a)
             else scan U f r False (rev (take n a) @ b) (drop n a))
      | None \<Rightarrow>
          (case a of [] \<Rightarrow> [] | c # cs \<Rightarrow> Txt c # scan U f r False (c # b) cs))"
  by pat_completeness auto
termination
proof (relation "measure (\<lambda>(U, f, r, adv, b, a). 2 * length a + (if adv then 0 else 1))")
  show "wf (measure (\<lambda>(U, f, r, adv, b, a). 2 * length a + (if adv then 0 else 1)))"
    by simp
next
  fix U f r adv b a x2 n g
  assume "match_here U f r adv b a = Some x2" "(n, g) = x2" "n = 0" "\<not> adv"
  then show "((U, f, r, True, b, a), U, f, r, adv, b, a)
      \<in> measure (\<lambda>(U, f, r, adv, b, a). 2 * length a + (if adv then 0 else 1))"
    by simp
next
  fix U f r adv b a x2 n g
  assume h: "match_here U f r adv b a = Some x2" "(n, g) = x2" "n \<noteq> 0"
  let ?xs = "map (\<lambda>(b', a', g'). (length a - length a', g')) (ms U f r (b, a, []))"
  from h obtain rest where "filter (\<lambda>(n, g). \<not> adv \<or> 0 < n) ?xs = (n, g) # rest"
    by (auto simp: match_here_def split: list.splits)
  then have "(n, g) \<in> set (filter (\<lambda>(n, g). \<not> adv \<or> 0 < n) ?xs)"
    by simp
  then have "(n, g) \<in> set ?xs"
    by simp
  then have "n \<le> length a"
    by auto
  with h show "((U, f, r, False, rev (take n a) @ b, drop n a), U, f, r, adv, b, a)
      \<in> measure (\<lambda>(U, f, r, adv, b, a). 2 * length a + (if adv then 0 else 1))"
    by (cases adv) auto
next
  fix U f r adv b a c cs
  assume "match_here U f r adv b a = None" "a = c # cs"
  then show "((U, f, r, False, c # b, cs), U, f, r, adv, b, a)
      \<in> measure (\<lambda>(U, f, r, adv, b, a). 2 * length a + (if adv then 0 else 1))"
    by simp
qed


declare scan.simps [simp del]

text \<open>
  A filter on the next code point, used to evaluate scans: \<open>may U f r p c\<close> is false only
  when \<open>r\<close> cannot match at a position whose previous code point is \<open>p\<close> and whose next
  one is \<open>c\<close>; \<open>consumes r\<close> is false only when \<open>r\<close> never moves the position.
\<close>

fun consumes :: "regex \<Rightarrow> bool" where
  "consumes Eps = False"
| "consumes (Chr d) = True"
| "consumes (Cls ds) = True"
| "consumes (Seq r1 r2) = (if consumes r1 then True else consumes r2)"
| "consumes (Alt r1 r2) = (if consumes r1 then True else consumes r2)"
| "consumes (Opt r) = consumes r"
| "consumes (Rep n ds) = True"
| "consumes (Grp i r) = consumes r"
| "consumes WordB = False"
| "consumes Bol = False"
| "consumes Eol = False"

fun may :: "unicode \<Rightarrow> flags \<Rightarrow> regex \<Rightarrow> nat option \<Rightarrow> nat \<Rightarrow> bool" where
  "may U f Eps p c = True"
| "may U f (Chr d) p c = chr_eq U f d c"
| "may U f (Cls ds) p c = cls_has U f ds c"
| "may U f (Seq r1 r2) p c =
     (if may U f r1 p c then (if consumes r1 then True else may U f r2 p c) else False)"
| "may U f (Alt r1 r2) p c = (if may U f r1 p c then True else may U f r2 p c)"
| "may U f (Opt r) p c = True"
| "may U f (Rep n ds) p c = (if n = 0 then True else cls_has U f ds c)"
| "may U f (Grp i r) p c = may U f r p c"
| "may U f WordB p c = ((case p of None \<Rightarrow> False | Some x \<Rightarrow> is_word U x) \<noteq> is_word U c)"
| "may U f Bol p c = (case p of None \<Rightarrow> True | Some x \<Rightarrow> multiline f \<and> x = 10)"
| "may U f Eol p c = (c = 10)"

text \<open>\<open>binds r k\<close>: every match of \<open>r\<close> captures group \<open>k\<close>.\<close>

fun binds :: "regex \<Rightarrow> nat \<Rightarrow> bool" where
  "binds (Grp i r) k = (i = k \<or> binds r k)"
| "binds (Seq r1 r2) k = (binds r1 k \<or> binds r2 k)"
| "binds (Alt r1 r2) k = (binds r1 k \<and> binds r2 k)"
| "binds r k = False"

text \<open>
  \<open>re.sub\<close>: every match is replaced by what the replacement gives for it (a template
  or a callback, either of which may raise), the rest of the text is copied.
  \<open>re.findall\<close> for a pattern without capturing groups lists the matched texts.
\<close>

fun subst :: "(rmatch \<Rightarrow> ustr option) \<Rightarrow> seg list \<Rightarrow> ustr option" where
  "subst repl [] = Some []"
| "subst repl (Txt c # ss) = do { t \<leftarrow> subst repl ss; Some (c # t) }"
| "subst repl (Mat m # ss) = do { x \<leftarrow> repl m; t \<leftarrow> subst repl ss; Some (x @ t) }"

definition re_sub :: "unicode \<Rightarrow> flags \<Rightarrow> regex \<Rightarrow> (rmatch \<Rightarrow> ustr option) \<Rightarrow> ustr \<Rightarrow> ustr option" where
  "re_sub U f r repl text = subst repl (scan U f r False [] text)"

fun matches :: "seg list \<Rightarrow> ustr list" where
  "matches [] = []"
| "matches (Txt c # ss) = matches ss"
| "matches (Mat m # ss) = fst m # matches ss"

definition findall :: "unicode \<Rightarrow> flags \<Rightarrow> regex \<Rightarrow> ustr \<Rightarrow> ustr list" where
  "findall U f r text = matches (scan U f r False [] text)"

text \<open>
  \<open>m.group(k)\<close>: group 0 is the whole match; a group the match does not have is an
  error. A replacement template is a list of literal pieces and group references.
\<close>

definition group :: "rmatch \<Rightarrow> nat \<Rightarrow> ustr option" where
  "group m k = (if k = 0 then Some (fst m) else map_of (snd m) k)"

datatype titem = TLit ustr | TGroup nat

fun expand :: "titem list \<Rightarrow> rmatch \<Rightarrow> ustr option" where
  "expand [] m = Some []"
| "expand (TLit s # ts) m = do { t \<leftarrow> expand ts m; Some (s @ t) }"
| "expand (TGroup k # ts) m = do { x \<leftarrow> group m k; t \<leftarrow> expand ts m; Some (x @ t) }"

definition literal :: "ustr \<Rightarrow> rmatch \<Rightarrow> ustr option" where
  "literal s = expand [TLit s]"

text \<open>Writing patterns: a literal word, a sequence, a class given by its members.\<close>

definition lit :: "string \<Rightarrow> regex" where
  "lit s = foldr (\<lambda>c r. Seq (Chr (of_char c)) r) s Eps"

definition seqs :: "regex list \<Rightarrow> regex" where
  "seqs rs = foldr Seq rs Eps"

definition cls :: "string \<Rightarrow> citem list" where
  "cls s = map (\<lambda>c. CChar (of_char c)) s"

definition apos :: regex where
  "apos = Chr 39"

definition letters :: "citem list" where
  "letters = [CRange 65 90, CRange 97 122]"

section \<open>ContentHumanizer\<close>

text \<open>
  The object built by \<open>__init__\<close>: the flag and the four tables. The dictionaries are
  association lists in insertion order, which is the order \<open>items()\<close> iterates in.
\<close>

record ContentHumanizer =
  aggressive :: bool
  word_replacements :: "(regex \<times> ustr) list"
  remove_phrases :: "regex list"
  youtube_intro_phrases :: "regex list"
  contractions :: "(regex \<times> ustr) list"

definition word_replacements_table :: "(regex \<times> ustr) list" where
  "word_replacements_table =
    [(seqs [WordB, lit ''delve'', Opt (Alt (lit ''s'') (lit ''d'')), WordB], str ''explore''),
     (seqs [WordB, lit ''delving'', WordB], str ''exploring''),
     (seqs [WordB, lit ''leverage'', Opt (Alt (lit ''s'') (lit ''d'')), WordB], str ''use''),
     (seqs [WordB, lit ''leveraging'', WordB], str ''using''),
     (seqs [WordB, lit ''utilize'', Opt (Alt (lit ''s'') (lit ''d'')), WordB], str ''use''),
     (seqs [WordB, lit ''utilizing'', WordB], str ''using''),
     (seqs [WordB, lit ''moreover'', WordB], str ''also''),
     (seqs [WordB, lit ''furthermore'', WordB], str ''also''),
     (seqs [WordB, lit ''additionally'', WordB], str ''plus''),
     (seqs [WordB, lit ''hence'', WordB], str ''so''),
     (seqs [WordB, lit ''thus'', WordB], str ''so''),
     (seqs [WordB, lit ''unlock'', Opt (Alt (lit ''s'') (Alt (lit ''ed'') (lit ''ing''))), WordB],
      str ''discover''),
     (seqs [WordB, lit ''harness'', Opt (Alt (lit ''es'') (Alt (lit ''ed'') (lit ''ing''))), WordB],
      str ''use''),
     (seqs [WordB, lit ''seamless'', Opt (lit ''ly''), WordB], str ''smooth''),
     (seqs [WordB, lit ''robust'', WordB], str ''strong''),
     (seqs [WordB, lit ''comprehensive'', WordB], str ''complete''),
     (seqs [WordB, lit ''embark'', Opt (Alt (lit ''s'') (Alt (lit ''ed'') (lit ''ing''))),
            lit '' on '', Alt (lit ''a'') (lit ''an''), lit '' '', Opt (lit ''epic ''),
            Alt (lit ''journey'') (lit ''adventure''), WordB],
      str ''start your adventure''),
     (seqs [WordB, lit ''master the art of'', WordB], str ''learn''),
     (seqs [WordB, lit ''unleash'', Opt (Alt (lit ''s'') (Alt (lit ''ed'') (lit ''ing''))),
            lit '' your potential'', WordB],
      str ''improve your skills''),
     (seqs [WordB, lit ''elevate'', Opt (Alt (lit ''s'') (lit ''d'')), lit '' your '',
            Alt (lit ''gameplay'') (lit ''experience''), WordB],
      str ''improve your game'')]"

definition remove_phrases_table :: "regex list" where
  "remove_phrases_table =
    [seqs [lit ''It'', Opt apos, lit ''s worth noting that ''],
     lit ''It is worth noting that '',
     seqs [lit ''It'', Opt apos, lit ''s important to note that ''],
     lit ''It is important to note that '',
     seqs [lit ''Generally speaking'', Opt (lit '',''), lit '' ''],
     seqs [lit ''In today'', Opt apos, lit ''s digital landscape'', Opt (lit '',''), lit '' ''],
     lit ''In the world of '',
     seqs [lit ''As we '', Opt (lit ''all ''), lit ''know'', Opt (lit '',''), lit '' ''],
     seqs [lit ''At the end of the day'', Opt (lit '',''), lit '' ''],
     seqs [lit ''The fact of the matter is'', Opt (lit '',''), lit '' '']]"

definition youtube_intro_phrases_table :: "regex list" where
  "youtube_intro_phrases_table =
    [seqs [Bol, lit ''In this video'', Opt (lit '',''), lit '' '',
           Alt (seqs [lit ''we'', Opt apos, lit ''ll''])
             (Alt (lit ''we will'') (Alt (seqs [lit ''I'', Opt apos, lit ''ll'']) (lit ''I will''))),
           lit '' ''],
     seqs [Bol, lit ''Welcome to '', Alt (lit ''this'') (lit ''my''), lit '' '',
           Alt (lit ''video'') (lit ''channel''), Opt (Cls (cls ''!.'')), Rep 0 [CSpace]],
     seqs [Bol, lit ''Today'', Opt (lit '',''), lit '' '',
           Alt (seqs [lit ''we'', Opt apos, lit ''re''])
             (Alt (lit ''we are'') (Alt (seqs [lit ''I'', Opt apos, lit ''m'']) (lit ''I am''))),
           lit '' going to ''],
     seqs [Bol, Alt (lit ''Hey'') (lit ''Hi''), lit '' '',
           Alt (lit ''guys'') (Alt (lit ''everyone'') (lit ''folks'')), Opt (lit '',''),
           Rep 0 [CSpace]]]"

definition contractions_table :: "(regex \<times> ustr) list" where
  "contractions_table =
    [(seqs [WordB, lit ''do not'', WordB], str ''don'' @ [39] @ str ''t''),
     (seqs [WordB, lit ''does not'', WordB], str ''doesn'' @ [39] @ str ''t''),
     (seqs [WordB, lit ''did not'', WordB], str ''didn'' @ [39] @ str ''t''),
     (seqs [WordB, lit ''cannot'', WordB], str ''can'' @ [39] @ str ''t''),
     (seqs [WordB, lit ''will not'', WordB], str ''won'' @ [39] @ str ''t''),
     (seqs [WordB, lit ''should not'', WordB], str ''shouldn'' @ [39] @ str ''t''),
     (seqs [WordB, lit ''would not'', WordB], str ''wouldn'' @ [39] @ str ''t''),
     (seqs [WordB, lit ''could not'', WordB], str ''couldn'' @ [39] @ str ''t''),
     (seqs [WordB, lit ''must not'', WordB], str ''mustn'' @ [39] @ str ''t''),
     (seqs [WordB, lit ''you are'', WordB], str ''you'' @ [39] @ str ''re''),
     (seqs [WordB, lit ''they are'', WordB], str ''they'' @ [39] @ str ''re''),
     (seqs [WordB, lit ''we are'', WordB], str ''we'' @ [39] @ str ''re''),
     (seqs [WordB, lit ''it is'', WordB], str ''it'' @ [39] @ str ''s''),
     (seqs [WordB, lit ''that is'', WordB], str ''that'' @ [39] @ str ''s''),
     (seqs [WordB, lit ''who is'', WordB], str ''who'' @ [39] @ str ''s''),
     (seqs [WordB, lit ''what is'', WordB], str ''what'' @ [39] @ str ''s''),
     (seqs [WordB, lit ''here is'', WordB], str ''here'' @ [39] @ str ''s''),
     (seqs [WordB, lit ''there is'', WordB], str ''there'' @ [39] @ str ''s''),
     (seqs [WordB, lit ''I am'', WordB], str ''I'' @ [39] @ str ''m''),
     (seqs [WordB, lit ''you will'', WordB], str ''you'' @ [39] @ str ''ll''),
     (seqs [WordB, lit ''they will'', WordB], str ''they'' @ [39] @ str ''ll''),
     (seqs [WordB, lit ''we will'', WordB], str ''we'' @ [39] @ str ''ll''),
     (seqs [WordB, lit ''I will'', WordB], str ''I'' @ [39] @ str ''ll'')]"

definition init :: "bool \<Rightarrow> ContentHumanizer" where
  "init aggr =
     \<lparr>aggressive = aggr,
      word_replacements = word_replacements_table,
      remove_phrases = remove_phrases_table,
      youtube_intro_phrases = youtube_intro_phrases_table,
      contractions = contractions_table\<rparr>"

text \<open>The loops \<open>for p, r in table: text = re.sub(p, r, text, flags)\<close> and
  \<open>for p in patterns: text = re.sub(p, '', text, flags)\<close>.\<close>

fun replace_each :: "unicode \<Rightarrow> flags \<Rightarrow> (regex \<times> ustr) list \<Rightarrow> ustr \<Rightarrow> ustr option" where
  "replace_each U f [] text = Some text"
| "replace_each U f ((p, r) # rules) text =
     do { text \<leftarrow> re_sub U f p (literal r) text; replace_each U f rules text }"

fun remove_each :: "unicode \<Rightarrow> flags \<Rightarrow> regex list \<Rightarrow> ustr \<Rightarrow> ustr option" where
  "remove_each U f [] text = Some text"
| "remove_each U f (p # ps) text =
     do { text \<leftarrow> re_sub U f p (literal []) text; remove_each U f ps text }"

subsection \<open>fix_punctuation_tells\<close>

text \<open>The loop over \<open>enumerate(parts)\<close>, appending to \<open>cleaned_parts\<close>.\<close>

fun clean_parts :: "unicode \<Rightarrow> nat \<Rightarrow> ustr list \<Rightarrow> ustr list \<Rightarrow> ustr list option" where
  "clean_parts U i [] cleaned_parts = Some cleaned_parts"
| "clean_parts U i (part # parts) cleaned_parts =
     (let part = strip part in
      if part \<noteq> [] then
        do {
          part \<leftarrow> (if 0 < i \<and> part \<noteq> [] then
                     (if 1 < length part
                      then do { c \<leftarrow> index part 0; Some (upper U [c] @ drop 1 part) }
                      else Some (upper U part))
                   else Some part);
          clean_parts U (i + 1) parts (cleaned_parts @ [part])
        }
      else clean_parts U (i + 1) parts cleaned_parts)"

text \<open>The second block of the function, under its comment \<open>Excessive punctuation\<close>.\<close>

definition excessive_punctuation :: "unicode \<Rightarrow> ustr \<Rightarrow> ustr option" where
  "excessive_punctuation U text =
     do {
       text \<leftarrow> re_sub U no_flags (Rep 2 (cls ''!'')) (literal (str ''!'')) text;
       text \<leftarrow> re_sub U no_flags (Rep 2 (cls ''?'')) (literal (str ''?'')) text;
       text \<leftarrow> re_sub U no_flags (Rep 3 (cls ''.'')) (literal (str ''...'')) text;
       Some text
     }"

definition fix_punctuation_tells :: "unicode \<Rightarrow> ContentHumanizer \<Rightarrow> ustr \<Rightarrow> ustr option" where
  "fix_punctuation_tells U self text =
     do {
       text \<leftarrow> (if em_dash \<in> set text then
                  do {
                    cleaned_parts \<leftarrow> clean_parts U 0 (split_on em_dash text) [];
                    Some (join (str ''. '') cleaned_parts)
                  }
                else Some text);
       excessive_punctuation U text
     }"

subsection \<open>replace_ai_word_choices, remove_hedging_language\<close>

definition replace_ai_word_choices :: "unicode \<Rightarrow> ContentHumanizer \<Rightarrow> ustr \<Rightarrow> ustr option" where
  "replace_ai_word_choices U self text = replace_each U IGNORECASE (word_replacements self) text"

text \<open>The capitalisation that ends \<open>remove_hedging_language\<close> and
  \<open>fix_youtube_description_tells\<close>.\<close>

definition capitalize_start :: "unicode \<Rightarrow> ustr \<Rightarrow> ustr option" where
  "capitalize_start U text =
     (let text = strip text in
      if text \<noteq> [] then
        do {
          c \<leftarrow> index text 0;
          if islower U [c] then do { c \<leftarrow> index text 0; Some (upper U [c] @ drop 1 text) }
          else Some text
        }
      else Some text)"

definition remove_hedging_language :: "unicode \<Rightarrow> ContentHumanizer \<Rightarrow> ustr \<Rightarrow> ustr option" where
  "remove_hedging_language U self text =
     do {
       text \<leftarrow> remove_each U IGNORECASE (remove_phrases self) text;
       capitalize_start U text
     }"

subsection \<open>fix_youtube_title_tells, fix_youtube_description_tells\<close>

definition buzzwords :: "regex list" where
  "buzzwords =
     [seqs [WordB, lit ''EPIC'', WordB],
      seqs [WordB, lit ''INCREDIBLE'', WordB],
      seqs [WordB, lit ''AMAZING'', WordB],
      seqs [WordB, lit ''UNBELIEVABLE'', WordB],
      seqs [WordB, lit ''INSANE'', WordB],
      seqs [WordB, lit ''CRAZY'', WordB]]"

definition generic_adjectives :: "regex list" where
  "generic_adjectives =
     [seqs [WordB, lit ''ultimate'', WordB],
      seqs [WordB, lit ''complete'', WordB],
      seqs [WordB, lit ''comprehensive'', WordB],
      seqs [WordB, lit ''definitive'', WordB]]"

definition fix_youtube_title_tells :: "unicode \<Rightarrow> ContentHumanizer \<Rightarrow> ustr \<Rightarrow> ustr option" where
  "fix_youtube_title_tells U self text =
     do {
       text \<leftarrow> re_sub U no_flags (Rep 2 (cls ''!?'')) (literal []) text;
       text \<leftarrow> (if 30 < length text
                 then remove_each U no_flags (map (\<lambda>word. Seq word (Rep 0 [CSpace])) buzzwords) text
                 else Some text);
       text \<leftarrow> (if 40 < length text
                 then replace_each U IGNORECASE
                        (map (\<lambda>adj. (Seq adj (seqs [Rep 1 [CSpace], lit ''guide'', WordB]),
                                    str ''guide'')) generic_adjectives) text
                 else Some text);
       Some text
     }"

definition subscribe_patterns :: "regex list" where
  "subscribe_patterns =
     [seqs [lit ''Don'', Opt apos, lit ''t forget to '', Opt (lit ''like and ''), lit ''subscribe'',
            Opt (Cls (cls ''!.'')), Rep 0 [CSpace]],
      seqs [lit ''Make sure to '', Opt (lit ''hit the ''),
            Alt (lit ''like button'') (lit ''subscribe''), Opt (Cls (cls ''!.'')), Rep 0 [CSpace]],
      seqs [lit ''Remember to '', Opt (lit ''like and ''), lit ''subscribe'',
            Opt (Cls (cls ''!.'')), Rep 0 [CSpace]]]"

definition fix_youtube_description_tells :: "unicode \<Rightarrow> ContentHumanizer \<Rightarrow> ustr \<Rightarrow> ustr option" where
  "fix_youtube_description_tells U self text =
     do {
       text \<leftarrow> remove_each U IGNORECASE (youtube_intro_phrases self) text;
       text \<leftarrow> remove_each U IGNORECASE subscribe_patterns text;
       capitalize_start U text
     }"

subsection \<open>add_contractions, clean_whitespace\<close>

definition add_contractions :: "unicode \<Rightarrow> ContentHumanizer \<Rightarrow> ustr \<Rightarrow> ustr option" where
  "add_contractions U self text = replace_each U IGNORECASE (contractions self) text"

definition add_space_after_punct :: "unicode \<Rightarrow> rmatch \<Rightarrow> ustr option" where
  "add_space_after_punct U m =
     do {
       punct \<leftarrow> group m 1;
       following \<leftarrow> group m 2;
       if punct = str ''.'' \<and> islower U following \<and> length following \<le> 4 then group m 0
       else Some (punct @ str '' '' @ following)
     }"

definition clean_whitespace :: "unicode \<Rightarrow> ContentHumanizer \<Rightarrow> ustr \<Rightarrow> ustr option" where
  "clean_whitespace U self text =
     do {
       text \<leftarrow> re_sub U no_flags (Rep 2 (cls '' '')) (literal (str '' '')) text;
       text \<leftarrow> re_sub U no_flags
                 (seqs [Rep 1 [CSpace], Grp 1 (Cls (cls ''!?.,;'')), Rep 1 [CSpace]])
                 (expand [TGroup 1, TLit (str '' '')]) text;
       text \<leftarrow> re_sub U MULTILINE
                 (seqs [Rep 1 [CSpace], Grp 1 (Cls (cls ''!?.,;'')), Eol])
                 (expand [TGroup 1]) text;
       text \<leftarrow> re_sub U no_flags
                 (seqs [Grp 1 (Cls (cls ''.,!?;:'')), Grp 2 (Cls letters)])
                 (add_space_after_punct U) text;
       text \<leftarrow> re_sub U no_flags (Rep 3 [CChar 10]) (literal [10, 10]) text;
       Some text
     }"

subsection \<open>humanize and humanize_text\<close>

definition humanize :: "unicode \<Rightarrow> ContentHumanizer \<Rightarrow> ustr \<Rightarrow> ustr \<Rightarrow> ustr option" where
  "humanize U self text content_type =
     (if text = [] \<or> strip text = [] then Some text
      else
        do {
          text \<leftarrow> fix_punctuation_tells U self text;
          text \<leftarrow> replace_ai_word_choices U self text;
          text \<leftarrow> remove_hedging_language U self text;
          text \<leftarrow> (if content_type = str ''youtube_title'' then fix_youtube_title_tells U self text
                    else if content_type = str ''youtube_description''
                      then fix_youtube_description_tells U self text
                    else if content_type = str ''youtube_tags'' then Some text
                    else Some text);
          text \<leftarrow> (if aggressive self then add_contractions U self text else Some text);
          text \<leftarrow> clean_whitespace U self text;
          Some (strip text)
        })"

definition humanize_text :: "unicode \<Rightarrow> ustr \<Rightarrow> ustr \<Rightarrow> bool \<Rightarrow> ustr option" where
  "humanize_text U text content_type aggr = humanize U (init aggr) text content_type"

subsection \<open>detect_ai_tells\<close>

text \<open>A tell is a pair of a label and either a text or, for the em dash, a count.\<close>

datatype evidence = Text ustr | Count nat

definition ai_words :: "string list" where
  "ai_words = [''delve'', ''leverage'', ''utilize'', ''moreover'', ''furthermore'',
               ''unlock'', ''harness'', ''seamless'', ''robust'', ''comprehensive'']"

definition hedging :: "string list" where
  "hedging = [''it'' @ [CHR 0x27] @ ''s worth noting'', ''generally speaking'',
              ''in today'' @ [CHR 0x27] @ ''s digital landscape'']"

definition ai_word_pattern :: "string \<Rightarrow> regex" where
  "ai_word_pattern word =
     seqs [WordB, lit word, Opt (Alt (lit ''s'') (Alt (lit ''d'') (lit ''ing''))), WordB]"

fun word_loop :: "unicode \<Rightarrow> string list \<Rightarrow> ustr \<Rightarrow> (ustr \<times> evidence) list \<Rightarrow> (ustr \<times> evidence) list" where
  "word_loop U [] text tells = tells"
| "word_loop U (word # ws) text tells =
     (let found = findall U IGNORECASE (ai_word_pattern word) text in
      word_loop U ws text
        (if found \<noteq> [] then tells @ map (\<lambda>m. (str word, Text m)) found else tells))"

fun hedging_loop :: "unicode \<Rightarrow> string list \<Rightarrow> ustr \<Rightarrow> (ustr \<times> evidence) list \<Rightarrow> (ustr \<times> evidence) list" where
  "hedging_loop U [] text tells = tells"
| "hedging_loop U (phrase # ps) text tells =
     hedging_loop U ps text
       (if contains (str phrase) (lower U text) then tells @ [(str ''hedging'', Text (str phrase))]
        else tells)"

definition detect_ai_tells :: "unicode \<Rightarrow> ustr \<Rightarrow> (ustr \<times> evidence) list" where
  "detect_ai_tells U text =
     (let tells = [];
          tells = word_loop U ai_words text tells;
          tells = (if em_dash \<in> set text
                   then tells @ [(str ''em_dash'', Count (count_list text em_dash))]
                   else tells)
      in hedging_loop U hedging text tells)"


section \<open>The specification's wording\<close>

text \<open>
  The em dash handling as the specification words it: split on the em dash, trim every
  segment, put the first code point of every non-empty segment after the first in upper
  case, and join the non-empty segments with a full stop and a space.
\<close>

definition capitalize_first :: "unicode \<Rightarrow> ustr \<Rightarrow> ustr" where
  "capitalize_first U s = (case s of [] \<Rightarrow> [] | c # cs \<Rightarrow> upper U [c] @ cs)"

definition em_dash_sentences :: "unicode \<Rightarrow> ustr \<Rightarrow> ustr" where
  "em_dash_sentences U text =
     (let segments = map strip (split_on em_dash text);
          first = filter (\<lambda>s. s \<noteq> []) (take 1 segments);
          others = filter (\<lambda>s. s \<noteq> []) (drop 1 segments)
      in join (str ''. '') (first @ map (capitalize_first U) others))"

text \<open>
  The order of the tells as the specification words it: the word matches in the order of
  the word list, then one record for the em dashes with their count, then one record
  for every hedging phrase that occurs, in the order of the phrase list.
\<close>

definition tells_in_order :: "unicode \<Rightarrow> ustr \<Rightarrow> (ustr \<times> evidence) list" where
  "tells_in_order U text =
     concat (map (\<lambda>word. map (\<lambda>m. (str word, Text m))
                            (findall U IGNORECASE (ai_word_pattern word) text)) ai_words) @
     (if em_dash \<in> set text then [(str ''em_dash'', Count (count_list text em_dash))] else []) @
     map (\<lambda>phrase. (str ''hedging'', Text (str phrase)))
       (filter (\<lambda>phrase. contains (str phrase) (lower U text)) hedging)"

section \<open>What is used of the Unicode tables\<close>

text \<open>
  The tables on the ASCII range, where every pattern and every table entry of the
  program lives.
\<close>

definition ascii_islower :: "nat \<Rightarrow> bool" where
  "ascii_islower c \<longleftrightarrow> 97 \<le> c \<and> c \<le> 122"

definition ascii_isupper :: "nat \<Rightarrow> bool" where
  "ascii_isupper c \<longleftrightarrow> 65 \<le> c \<and> c \<le> 90"

definition ascii_isdigit :: "nat \<Rightarrow> bool" where
  "ascii_isdigit c \<longleftrightarrow> 48 \<le> c \<and> c \<le> 57"

definition ascii_letter :: "nat \<Rightarrow> bool" where
  "ascii_letter c \<longleftrightarrow> ascii_islower c \<or> ascii_isupper c"

definition ascii_word :: "nat \<Rightarrow> bool" where
  "ascii_word c \<longleftrightarrow> ascii_letter c \<or> ascii_isdigit c \<or> c = 95"

definition ascii_upper :: "nat \<Rightarrow> nat" where
  "ascii_upper c = (if ascii_islower c then c - 32 else c)"

definition ascii_lower :: "nat \<Rightarrow> nat" where
  "ascii_lower c = (if ascii_isupper c then c + 32 else c)"

text \<open>
  The facts about the tables that the proofs use. Each of them holds of the tables of
  the interpreter:

  \<^item> on ASCII, \<open>\w\<close> is the letters, the digits and the underscore, and the em dash is
    not in \<open>\w\<close>;
  \<^item> under \<open>re.IGNORECASE\<close> an ASCII pattern character matches an ASCII code point
    exactly when the two are equal up to the case of a letter; a pattern character
    that is not a letter matches itself only; what a letter matches is in \<open>\w\<close> (the
    letter in both cases and, for \<open>k\<close>, \<open>s\<close> and \<open>i\<close>, the letters U+212A, U+017F,
    U+0130 and U+0131);
  \<^item> \<open>upper\<close> of one ASCII code point is that code point in upper case, and \<open>upper\<close>
    never produces an em dash that was not there;
  \<^item> \<open>lower\<close> of a string of ASCII code points and em dashes lowers each letter;
  \<^item> \<open>islower\<close> of one ASCII code point says whether it is a lowercase letter.

  Nothing is assumed about the other code points. \<open>ascii_tables\<close> is one table with
  these facts: it knows no letter outside ASCII.
\<close>

definition unicode_ok :: "unicode \<Rightarrow> bool" where
  "unicode_ok U \<longleftrightarrow>
     (\<forall>c. c < 128 \<longrightarrow> is_word U c = ascii_word c) \<and>
     \<not> is_word U em_dash \<and>
     (\<forall>d c. d < 128 \<longrightarrow> c < 128 \<longrightarrow> folds U d c = (ascii_lower c = ascii_lower d)) \<and>
     (\<forall>d c. d < 128 \<longrightarrow> \<not> ascii_letter d \<longrightarrow> folds U d c = (c = d)) \<and>
     (\<forall>d c. d < 128 \<longrightarrow> ascii_letter d \<longrightarrow> folds U d c \<longrightarrow> is_word U c) \<and>
     (\<forall>c. c < 128 \<longrightarrow> upper U [c] = [ascii_upper c]) \<and>
     (\<forall>s. em_dash \<notin> set s \<longrightarrow> em_dash \<notin> set (upper U s)) \<and>
     (\<forall>s. (\<forall>c\<in>set s. c < 128 \<or> c = em_dash) \<longrightarrow> lower U s = map ascii_lower s) \<and>
     (\<forall>c. c < 128 \<longrightarrow> islower U [c] = ascii_islower c)"

definition ascii_tables :: unicode where
  "ascii_tables =
     \<lparr>is_word = ascii_word,
      folds = (\<lambda>d c. ascii_lower c = ascii_lower d),
      upper = map ascii_upper,
      lower = map ascii_lower,
      islower = (\<lambda>s. list_ex ascii_islower s \<and> \<not> list_ex ascii_isupper s)\<rparr>"

section \<open>Notions used in the proofs\<close>

text \<open>
  Collapsing runs, for the proofs about \<open>excessive_punctuation\<close>: \<open>squeeze c k rep n xs\<close>
  replaces every run of at least \<open>k\<close> code points \<open>c\<close> by \<open>rep\<close>, with \<open>n\<close> of them
  already read; \<open>runs_le c j n xs\<close> holds when no run of \<open>c\<close> is longer than \<open>j\<close>.
\<close>

fun squeeze :: "nat \<Rightarrow> nat \<Rightarrow> ustr \<Rightarrow> nat \<Rightarrow> ustr \<Rightarrow> ustr" where
  "squeeze c k rep n [] = (if k \<le> n then rep else replicate n c)"
| "squeeze c k rep n (x # xs) =
     (if x = c then squeeze c k rep (Suc n) xs
      else (if k \<le> n then rep else replicate n c) @ x # squeeze c k rep 0 xs)"

fun runs_le :: "nat \<Rightarrow> nat \<Rightarrow> nat \<Rightarrow> ustr \<Rightarrow> bool" where
  "runs_le c j n [] = (n \<le> j)"
| "runs_le c j n (x # xs) = (if x = c then runs_le c j (Suc n) xs else n \<le> j \<and> runs_le c j 0 xs)"

text \<open>
  For the proof that the word table is idempotent. \<open>cip U f w a\<close>: the text \<open>a\<close> begins
  with the pattern word \<open>w\<close>, compared as the flags say. \<open>lang r\<close> lists the words a
  pattern without assertions, classes and repetitions can match (\<open>frag r\<close> says that it
  is such a pattern); \<open>rule_lang p\<close> does so for a pattern between two \<open>\b\<close>, and
  \<open>rule_ok p\<close> says that \<open>p\<close> has that form.
\<close>

fun cip :: "unicode \<Rightarrow> flags \<Rightarrow> ustr \<Rightarrow> ustr \<Rightarrow> bool" where
  "cip U f [] a = True"
| "cip U f (d # w) [] = False"
| "cip U f (d # w) (c # a) = (chr_eq U f d c \<and> cip U f w a)"

fun frag :: "regex \<Rightarrow> bool" where
  "frag Eps = True"
| "frag (Chr d) = True"
| "frag (Seq r1 r2) = (frag r1 \<and> frag r2)"
| "frag (Alt r1 r2) = (frag r1 \<and> frag r2)"
| "frag (Opt r) = frag r"
| "frag r = False"

fun lang :: "regex \<Rightarrow> ustr list" where
  "lang Eps = [[]]"
| "lang (Chr d) = [[d]]"
| "lang (Seq r1 r2) = concat (map (\<lambda>u. map (\<lambda>v. u @ v) (lang r2)) (lang r1))"
| "lang (Alt r1 r2) = lang r1 @ lang r2"
| "lang (Opt r) = lang r @ [[]]"
| "lang r = []"

fun body_ok :: "regex \<Rightarrow> bool" where
  "body_ok (Seq x r) = (if x = WordB \<and> r = Eps then True else frag x \<and> body_ok r)"
| "body_ok r = False"

fun body_lang :: "regex \<Rightarrow> ustr list" where
  "body_lang (Seq x r) =
     (if x = WordB \<and> r = Eps then [[]]
      else concat (map (\<lambda>u. map (\<lambda>v. u @ v) (body_lang r)) (lang x)))"
| "body_lang r = []"

definition bnd :: "unicode \<Rightarrow> mstate \<Rightarrow> bool" where
  "bnd U s = (case s of (b, a, g) \<Rightarrow> at_boundary U b a)"

fun rule_ok :: "regex \<Rightarrow> bool" where
  "rule_ok (Seq WordB r) = body_ok r"
| "rule_ok r = False"

fun rule_lang :: "regex \<Rightarrow> ustr list" where
  "rule_lang (Seq WordB r) = body_lang r"
| "rule_lang r = []"

definition after :: "ustr \<Rightarrow> mstate \<Rightarrow> mstate" where
  "after w s = (case s of (b, a, g) \<Rightarrow> (rev (take (length w) a) @ b, drop (length w) a, g))"

text \<open>
  \<open>wdn U a\<close>: the text starts with a word character. \<open>occ U f L pw a\<close>: some word of
  \<open>L\<close> occurs in \<open>a\<close> as a whole word, that is, compared as the flags say, with no word
  character right before it and none right after it; \<open>pw\<close> tells whether a word
  character stands before \<open>a\<close>. \<open>outp U f q r b a\<close> is the text that \<open>re.sub\<close> builds
  for a literal replacement \<open>r\<close>. A pattern word (\<open>pword\<close>) is in ASCII and has a word
  character at both ends; \<open>pwords U L\<close> says so of every word of \<open>L\<close>, for tables \<open>U\<close>
  that have the facts above. \<open>seg_in\<close> is the text that a piece of a scan was read
  from, so \<open>text_of\<close> gives back the text of a scan.
\<close>

definition wdn :: "unicode \<Rightarrow> ustr \<Rightarrow> bool" where
  "wdn U a = (case a of [] \<Rightarrow> False | y # _ \<Rightarrow> is_word U y)"

definition wordy :: "unicode \<Rightarrow> ustr \<Rightarrow> bool" where
  "wordy U w \<longleftrightarrow> w \<noteq> [] \<and> is_word U (hd w) \<and> is_word U (last w)"

definition pword :: "unicode \<Rightarrow> ustr \<Rightarrow> bool" where
  "pword U w \<longleftrightarrow> list_all (\<lambda>d. d < 128) w \<and> wordy U w"

definition pwords :: "unicode \<Rightarrow> ustr list \<Rightarrow> bool" where
  "pwords U L \<longleftrightarrow> unicode_ok U \<and> list_all (pword U) L"

definition occ_at :: "unicode \<Rightarrow> flags \<Rightarrow> ustr list \<Rightarrow> bool \<Rightarrow> ustr \<Rightarrow> bool" where
  "occ_at U f L pw a \<longleftrightarrow> \<not> pw \<and> list_ex (\<lambda>w. cip U f w a \<and> \<not> wdn U (drop (length w) a)) L"

fun occ :: "unicode \<Rightarrow> flags \<Rightarrow> ustr list \<Rightarrow> bool \<Rightarrow> ustr \<Rightarrow> bool" where
  "occ U f L pw [] = False"
| "occ U f L pw (c # cs) = (occ_at U f L pw (c # cs) \<or> occ U f L (is_word U c) cs)"



fun seg_out :: "ustr \<Rightarrow> seg \<Rightarrow> ustr" where
  "seg_out r (Txt c) = [c]"
| "seg_out r (Mat m) = r"

definition outp :: "unicode \<Rightarrow> flags \<Rightarrow> regex \<Rightarrow> ustr \<Rightarrow> ustr \<Rightarrow> ustr \<Rightarrow> ustr" where
  "outp U f q r b a = concat (map (seg_out r) (scan U f q False b a))"

text \<open>
  A pattern word \<open>w\<close> and a replacement \<open>r\<close> clash when \<open>w\<close> could occur in an output
  on top of a copy of \<open>r\<close>: starting inside the copy (\<open>clash_in\<close>) or before it
  (\<open>clash_left\<close>). \<open>rules_ok\<close> checks a table: every pattern has the form above and no
  replacement clashes with the words of its own pattern or of an earlier one.
  \<open>lefts\<close> and \<open>inners\<close> compute the clash checks in one pass.
\<close>

definition agree :: "unicode \<Rightarrow> flags \<Rightarrow> ustr \<Rightarrow> ustr \<Rightarrow> bool" where
  "agree U f w r \<longleftrightarrow>
     (if length w \<le> length r
      then cip U f w r \<and> (length w = length r \<or> \<not> is_word U (r ! length w))
      else cip U f (take (length r) w) r \<and> \<not> is_word U (w ! length r))"

definition clash_in :: "unicode \<Rightarrow> flags \<Rightarrow> ustr \<Rightarrow> ustr \<Rightarrow> nat \<Rightarrow> bool" where
  "clash_in U f w r d \<longleftrightarrow> (d = 0 \<or> \<not> is_word U (r ! (d - 1))) \<and> agree U f w (drop d r)"

definition clash_left :: "unicode \<Rightarrow> flags \<Rightarrow> ustr \<Rightarrow> ustr \<Rightarrow> nat \<Rightarrow> bool" where
  "clash_left U f w r k \<longleftrightarrow> \<not> is_word U (w ! (k - 1)) \<and> agree U f (drop k w) r"

definition noclash :: "unicode \<Rightarrow> flags \<Rightarrow> ustr list \<Rightarrow> ustr \<Rightarrow> bool" where
  "noclash U f L r \<longleftrightarrow>
     list_all (\<lambda>w. list_all (\<lambda>d. \<not> clash_in U f w r d) [0..<length r] \<and>
                   list_all (\<lambda>k. \<not> clash_left U f w r k) [1..<length w]) L"

fun rules_ok :: "unicode \<Rightarrow> flags \<Rightarrow> ustr list list \<Rightarrow> (regex \<times> ustr) list \<Rightarrow> bool" where
  "rules_ok U f Ls [] = True"
| "rules_ok U f Ls ((p, r) # rest) =
     (rule_ok p \<and> list_all (pword U) (rule_lang p) \<and> wordy U r \<and>
      list_all (\<lambda>L. noclash U f L r) (rule_lang p # Ls) \<and> rules_ok U f (rule_lang p # Ls) rest)"

fun lefts :: "unicode \<Rightarrow> flags \<Rightarrow> ustr \<Rightarrow> ustr \<Rightarrow> bool" where
  "lefts U f r (x # y # w) =
     (if is_word U x then lefts U f r (y # w)
      else if agree U f (y # w) r then False else lefts U f r (y # w))"
| "lefts U f r w = True"

fun inners :: "unicode \<Rightarrow> flags \<Rightarrow> ustr \<Rightarrow> ustr \<Rightarrow> bool" where
  "inners U f w (x # y # r) =
     (if is_word U x then inners U f w (y # r)
      else if agree U f w (y # r) then False else inners U f w (y # r))"
| "inners U f w r = True"

section \<open>Inputs of run_self_test and of the docstrings\<close>

definition em_dash_input :: ustr where
  "em_dash_input = str ''This is a test '' @ [em_dash] @ str '' and it continues here''"

definition hedging_input :: ustr where
  "hedging_input =
     str ''It's worth noting that this is important. Generally speaking, we should proceed.''"

definition title_input :: ustr where
  "title_input =
     str ''EPIC GAMING GUIDE '' @ [em_dash] @ str '' The ULTIMATE Comprehensive Tutorial!!!''"

definition docstring_input :: ustr where
  "docstring_input = str ''EPIC GAMING '' @ [em_dash] @ str '' it's worth noting that this is amazing!!!''"

text \<open>
  A text with a word of the end of the list before two matches of its first word, two
  em dashes, and two phrases in the order opposite to the list's, the second one twice,
  none of them in lower case.
\<close>

definition tells_input :: ustr where
  "tells_input =
     str ''ROBUST Delve, delves '' @ [em_dash] @
     str '' In Today's Digital Landscape, GENERALLY SPEAKING, Generally Speaking '' @ [em_dash]"

section \<open>The tables on ASCII\<close>

lemma ascii_tables_ok: "unicode_ok ascii_tables"
  unfolding unicode_ok_def ascii_tables_def
  by (auto simp: ascii_lower_def ascii_upper_def ascii_isupper_def ascii_islower_def
      ascii_letter_def ascii_word_def ascii_isdigit_def em_dash_def split: if_splits)

lemma ok_is_word: "unicode_ok U \<Longrightarrow> c < 128 \<Longrightarrow> is_word U c = ascii_word c"
  by (simp add: unicode_ok_def)

lemma ok_is_word_em_dash: "unicode_ok U \<Longrightarrow> is_word U 8212 = False"
  by (simp add: unicode_ok_def em_dash_def)

lemma ok_folds:
  "unicode_ok U \<Longrightarrow> d < 128 \<Longrightarrow> c < 128 \<Longrightarrow> folds U d c = (ascii_lower c = ascii_lower d)"
  by (simp add: unicode_ok_def)

lemma ok_folds_word:
  assumes "unicode_ok U" and "d < 128" and "folds U d c"
  shows "is_word U c = is_word U d"
proof (cases "ascii_letter d")
  case True
  with assms have "is_word U c"
    unfolding unicode_ok_def by blast
  moreover from assms(1,2) True have "is_word U d"
    by (simp add: unicode_ok_def ascii_word_def)
  ultimately show ?thesis
    by simp
next
  case False
  with assms have "c = d"
    unfolding unicode_ok_def by blast
  then show ?thesis
    by simp
qed

lemma ok_folds_em_dash: "unicode_ok U \<Longrightarrow> d < 128 \<Longrightarrow> folds U d 8212 = False"
  using ok_folds_word[of U d 8212] ok_is_word_em_dash[of U] ok_is_word[of U d]
  by (cases "ascii_letter d") (auto simp: unicode_ok_def ascii_word_def)

lemma ok_upper: "unicode_ok U \<Longrightarrow> c < 128 \<Longrightarrow> upper U [c] = [ascii_upper c]"
  by (simp add: unicode_ok_def)

lemma ok_upper_no_dash: "unicode_ok U \<Longrightarrow> em_dash \<notin> set s \<Longrightarrow> em_dash \<notin> set (upper U s)"
  by (simp add: unicode_ok_def)

lemma ok_lower:
  "unicode_ok U \<Longrightarrow> list_all (\<lambda>c. c < 128 \<or> c = 8212) s \<Longrightarrow> lower U s = map ascii_lower s"
  by (simp add: unicode_ok_def em_dash_def list_all_iff)

lemma ok_islower: "unicode_ok U \<Longrightarrow> c < 128 \<Longrightarrow> islower U [c] = ascii_islower c"
  by (simp add: unicode_ok_def)

section \<open>Evaluating a scan\<close>

lemma match_here_le: "match_here U f r adv b a = Some (n, g) \<Longrightarrow> n \<le> length a"
proof -
  let ?xs = "map (\<lambda>(b', a', g'). (length a - length a', g')) (ms U f r (b, a, []))"
  assume "match_here U f r adv b a = Some (n, g)"
  then obtain rest where "filter (\<lambda>(n, g). \<not> adv \<or> 0 < n) ?xs = (n, g) # rest"
    by (auto simp: match_here_def split: list.splits)
  then have "(n, g) \<in> set (filter (\<lambda>(n, g). \<not> adv \<or> 0 < n) ?xs)"
    by simp
  then have "(n, g) \<in> set ?xs"
    by simp
  then show ?thesis
    by auto
qed

lemma scan_end:
  "match_here U f r adv b [] = None \<Longrightarrow> scan U f r adv b [] = []"
  by (simp add: scan.simps)

lemma scan_skip:
  "match_here U f r adv b (c # cs) = None \<Longrightarrow>
   scan U f r adv b (c # cs) = Txt c # scan U f r False (c # b) cs"
  by (simp add: scan.simps)

lemma scan_match:
  "match_here U f r adv b a = Some (Suc n, g) \<Longrightarrow>
   scan U f r adv b a =
     Mat (take (Suc n) a, g) # scan U f r False (rev (take (Suc n) a) @ b) (drop (Suc n) a)"
  by (subst scan.simps) simp



lemma ms_stays:
  "\<not> consumes r \<Longrightarrow> (b', a', g') \<in> set (ms U f r (b, a, g)) \<Longrightarrow> b' = b \<and> a' = a"
proof (induction r arbitrary: g b' a' g')
  case (Seq r1 r2)
  from Seq.prems(1) have c: "\<not> consumes r1" "\<not> consumes r2"
    by (auto split: if_splits)
  from Seq.prems(2) obtain s1 where s1: "s1 \<in> set (ms U f r1 (b, a, g))"
      "(b', a', g') \<in> set (ms U f r2 s1)"
    by auto
  obtain b1 a1 g1 where e: "s1 = (b1, a1, g1)"
    by (cases s1) auto
  with s1(1) Seq.IH(1)[OF c(1)] have "b1 = b \<and> a1 = a"
    by blast
  with e s1(2) Seq.IH(2)[OF c(2)] show ?case
    by blast
next
  case (Alt r1 r2)
  from Alt.prems(1) have c: "\<not> consumes r1" "\<not> consumes r2"
    by (auto split: if_splits)
  from Alt.prems(2) have "(b', a', g') \<in> set (ms U f r1 (b, a, g)) \<or> (b', a', g') \<in> set (ms U f r2 (b, a, g))"
    by simp
  with Alt.IH(1)[OF c(1)] Alt.IH(2)[OF c(2)] show ?case
    by blast
next
  case (Opt r)
  then show ?case
    by auto
next
  case (Grp i r)
  then show ?case
    by fastforce
qed (auto split: if_splits)

lemma may_sound:
  "\<not> may U f r (case b of [] \<Rightarrow> None | x # _ \<Rightarrow> Some x) c \<Longrightarrow> ms U f r (b, c # cs, g) = []"
proof (induction r arbitrary: g)
  case (Seq r1 r2)
  show ?case
  proof (cases "may U f r1 (case b of [] \<Rightarrow> None | x # _ \<Rightarrow> Some x) c")
    case False
    then show ?thesis
      using Seq.IH(1) by simp
  next
    case True
    with Seq.prems have c: "\<not> consumes r1"
      and m: "\<not> may U f r2 (case b of [] \<Rightarrow> None | x # _ \<Rightarrow> Some x) c"
      by (auto split: if_splits)
    have "ms U f r2 s1 = []" if "s1 \<in> set (ms U f r1 (b, c # cs, g))" for s1
    proof -
      obtain b1 a1 g1 where e: "s1 = (b1, a1, g1)"
        by (cases s1) auto
      with that have "(b1, a1, g1) \<in> set (ms U f r1 (b, c # cs, g))"
        by simp
      from ms_stays[OF c this] e have "s1 = (b, c # cs, g1)"
        by simp
      then show ?thesis
        using Seq.IH(2)[OF m] by simp
    qed
    then show ?thesis
      by simp
  qed
next
  case (Alt r1 r2)
  then show ?case
    by (auto split: if_splits)
next
  case (Rep n ds)
  then show ?case
    by (auto split: if_splits)
next
  case WordB
  then show ?case
    by (auto simp: at_boundary_def split: list.splits)
next
  case Bol
  then show ?case
    by (auto simp: at_bol_def split: list.splits)
next
  case Eol
  then show ?case
    by (auto simp: at_eol_def)
qed auto

lemma scan_first:
  "\<not> may U f r None c \<Longrightarrow> scan U f r adv [] (c # cs) = Txt c # scan U f r False [c] cs"
  using may_sound[of U f r "[]" c cs "[]"] by (simp add: scan_skip match_here_def)

lemma scan_next:
  "\<not> may U f r (Some x) c \<Longrightarrow>
   scan U f r adv (x # xs) (c # cs) = Txt c # scan U f r False (c # x # xs) cs"
  using may_sound[of U f r "x # xs" c cs "[]"] by (simp add: scan_skip match_here_def)

lemma scan_first_try:
  "may U f r None c \<Longrightarrow> match_here U f r adv [] (c # cs) = None \<Longrightarrow>
   scan U f r adv [] (c # cs) = Txt c # scan U f r False [c] cs"
  by (simp add: scan_skip)

lemma scan_next_try:
  "may U f r (Some x) c \<Longrightarrow> match_here U f r adv (x # xs) (c # cs) = None \<Longrightarrow>
   scan U f r adv (x # xs) (c # cs) = Txt c # scan U f r False (c # x # xs) cs"
  by (simp add: scan_skip)

lemma scan_first_match:
  "may U f r None c \<Longrightarrow> match_here U f r adv [] (c # cs) = Some (Suc n, g) \<Longrightarrow>
   scan U f r adv [] (c # cs) =
     Mat (take (Suc n) (c # cs), g) #
       scan U f r False (rev (take (Suc n) (c # cs))) (drop (Suc n) (c # cs))"
  using scan_match[of U f r adv "[]" "c # cs" n g] by simp

lemma scan_next_match:
  "may U f r (Some x) c \<Longrightarrow> match_here U f r adv (x # xs) (c # cs) = Some (Suc n, g) \<Longrightarrow>
   scan U f r adv (x # xs) (c # cs) =
     Mat (take (Suc n) (c # cs), g) #
       scan U f r False (rev (take (Suc n) (c # cs)) @ x # xs) (drop (Suc n) (c # cs))"
  using scan_match[of U f r adv "x # xs" "c # cs" n g] by simp

lemma bind_weak_cong: "m = m' \<Longrightarrow> Option.bind m k = Option.bind m' k"
  by simp

lemmas text_eval = str_def em_dash_def is_space_def ascii_islower_def ascii_isupper_def
  ascii_isdigit_def ascii_letter_def ascii_word_def ascii_upper_def ascii_lower_def
  ok_is_word ok_is_word_em_dash ok_folds ok_folds_em_dash ok_upper ok_lower ok_islower
  strip_def index_def

lemmas regex_eval = scan_end scan_first scan_next scan_first_try scan_next_try
  scan_first_match scan_next_match match_here_def re_sub_def findall_def
  no_flags_def IGNORECASE_def MULTILINE_def lit_def seqs_def cls_def apos_def letters_def
  chr_eq_def cls_has_def at_boundary_def at_bol_def at_eol_def group_def literal_def

lemmas program_eval = init_def word_replacements_table_def remove_phrases_table_def
  youtube_intro_phrases_table_def contractions_table_def excessive_punctuation_def
  fix_punctuation_tells_def
  replace_ai_word_choices_def capitalize_start_def remove_hedging_language_def buzzwords_def
  generic_adjectives_def fix_youtube_title_tells_def subscribe_patterns_def
  fix_youtube_description_tells_def add_contractions_def add_space_after_punct_def
  clean_whitespace_def humanize_def humanize_text_def


section \<open>No stage raises\<close>

lemma rep_run_groups:
  "(b', a', g') \<in> set (rep_run p n (b, a, g)) \<Longrightarrow> g' = g"
  by (induction a arbitrary: n b) (auto split: if_splits)

lemma ms_groups:
  "(b', a', g') \<in> set (ms U f r (b, a, g)) \<Longrightarrow> binds r k \<or> k \<in> fst ` set g \<Longrightarrow>
   k \<in> fst ` set g'"
proof (induction r arbitrary: b a g b' a' g')
  case (Seq r1 r2)
  from Seq.prems(1) obtain s1 where s1: "s1 \<in> set (ms U f r1 (b, a, g))"
      "(b', a', g') \<in> set (ms U f r2 s1)"
    by auto
  obtain b1 a1 g1 where e: "s1 = (b1, a1, g1)"
    by (cases s1) auto
  show ?case
  proof (cases "binds r2 k")
    case True
    with s1(2) e Seq.IH(2) show ?thesis
      by blast
  next
    case False
    with Seq.prems(2) have "binds r1 k \<or> k \<in> fst ` set g"
      by auto
    with s1(1) e Seq.IH(1) have "k \<in> fst ` set g1"
      by blast
    with s1(2) e Seq.IH(2) show ?thesis
      by blast
  qed
next
  case (Alt r1 r2)
  from Alt.prems(1) have "(b', a', g') \<in> set (ms U f r1 (b, a, g)) \<or> (b', a', g') \<in> set (ms U f r2 (b, a, g))"
    by simp
  moreover from Alt.prems(2) have "(binds r1 k \<or> k \<in> fst ` set g) \<and> (binds r2 k \<or> k \<in> fst ` set g)"
    by auto
  ultimately show ?case
    using Alt.IH by blast
next
  case (Opt r)
  from Opt.prems have k: "k \<in> fst ` set g"
    by simp
  from Opt.prems(1) have "(b', a', g') \<in> set (ms U f r (b, a, g)) \<or> (b', a', g') = (b, a, g)"
    by auto
  with k Opt.IH show ?case
    by blast
next
  case (Rep n ds)
  then show ?case
    using rep_run_groups by fastforce
next
  case (Grp i r)
  from Grp.prems(1) obtain g0 where g0: "(b', a', g0) \<in> set (ms U f r (b, a, g))"
      "g' = (i, take (length a - length a') a) # g0"
    by auto
  show ?case
  proof (cases "i = k")
    case True
    with g0(2) show ?thesis
      by simp
  next
    case False
    with Grp.prems(2) have "binds r k \<or> k \<in> fst ` set g"
      by simp
    with g0(1) Grp.IH have "k \<in> fst ` set g0"
      by blast
    with g0(2) show ?thesis
      by simp
  qed
qed (auto split: if_splits list.splits)

lemma match_here_groups:
  assumes "match_here U f r adv b a = Some (n, g)" and "binds r k"
  shows "\<exists>v. map_of g k = Some v"
proof -
  let ?xs = "map (\<lambda>(b', a', g'). (length a - length a', g')) (ms U f r (b, a, []))"
  from assms(1) obtain rest where "filter (\<lambda>(n, g). \<not> adv \<or> 0 < n) ?xs = (n, g) # rest"
    by (auto simp: match_here_def split: list.splits)
  then have "(n, g) \<in> set (filter (\<lambda>(n, g). \<not> adv \<or> 0 < n) ?xs)"
    by simp
  then have "(n, g) \<in> set ?xs"
    by simp
  then obtain b' a' where "(b', a', g) \<in> set (ms U f r (b, a, []))"
    by auto
  with assms(2) have "k \<in> fst ` set g"
    using ms_groups by blast
  then show ?thesis
    by (metis domIff dom_map_of_conv_image_fst not_Some_eq)
qed

lemma scan_groups:
  "Mat (m, g) \<in> set (scan U f r adv b a) \<Longrightarrow> binds r k \<Longrightarrow> \<exists>v. map_of g k = Some v"
proof (induction U f r adv b a rule: scan.induct)
  case (1 U f r adv b a)
  show ?case
  proof (cases "match_here U f r adv b a")
    case None
    show ?thesis
    proof (cases a)
      case Nil
      with None "1.prems"(1) show ?thesis
        by (simp add: scan_end)
    next
      case (Cons c cs)
      with None "1.prems"(1) have "Mat (m, g) \<in> set (scan U f r False (c # b) cs)"
        by (simp add: scan_skip)
      with "1.IH" None Cons "1.prems"(2) show ?thesis
        by blast
    qed
  next
    case (Some x)
    obtain n g0 where x: "x = (n, g0)"
      by (cases x)
    from Some x "1.prems"(2) have here: "\<exists>v. map_of g0 k = Some v"
      using match_here_groups by blast
    from "1.prems"(1) Some x
    have "Mat (m, g) = Mat (take n a, g0) \<or>
          (n = 0 \<and> \<not> adv \<and> Mat (m, g) \<in> set (scan U f r True b a)) \<or>
          (n \<noteq> 0 \<and> Mat (m, g) \<in> set (scan U f r False (rev (take n a) @ b) (drop n a)))"
      by (subst (asm) scan.simps) (auto split: if_splits)
    with here "1.IH" Some x "1.prems"(2)
    show ?thesis
      by blast
  qed
qed

lemma subst_total:
  "(\<And>m. Mat m \<in> set ss \<Longrightarrow> \<exists>x. repl m = Some x) \<Longrightarrow> \<exists>t. subst repl ss = Some t"
proof (induction ss)
  case Nil
  then show ?case
    by simp
next
  case (Cons s ss)
  then obtain t where t: "subst repl ss = Some t"
    by auto
  show ?case
  proof (cases s)
    case (Txt c)
    with t show ?thesis
      by simp
  next
    case (Mat m)
    from Cons.prems[of m] Mat obtain x where "repl m = Some x"
      by auto
    with Mat t show ?thesis
      by simp
  qed
qed

lemma re_sub_literal: "\<exists>t. re_sub U f r (literal s) text = Some t"
  unfolding re_sub_def by (rule subst_total) (simp add: literal_def)

lemma replace_each_total: "\<exists>t. replace_each U f rules t0 = Some t"
proof (induction rules arbitrary: t0)
  case Nil
  then show ?case
    by simp
next
  case (Cons pr rules)
  obtain p r where pr: "pr = (p, r)"
    by (cases pr)
  obtain t where "re_sub U f p (literal r) t0 = Some t"
    using re_sub_literal by blast
  with pr Cons.IH[of t] show ?case
    by simp
qed

lemma remove_each_total: "\<exists>t. remove_each U f ps t0 = Some t"
proof (induction ps arbitrary: t0)
  case Nil
  then show ?case
    by simp
next
  case (Cons p ps)
  obtain t where "re_sub U f p (literal []) t0 = Some t"
    using re_sub_literal by blast
  with Cons.IH[of t] show ?case
    by simp
qed

lemma clean_parts_total: "\<exists>out. clean_parts U i parts cleaned = Some out"
proof (induction parts arbitrary: i cleaned)
  case Nil
  then show ?case
    by simp
next
  case (Cons part parts)
  show ?case
    using Cons.IH by (simp add: Let_def index_def)
qed

lemma fix_punctuation_tells_total: "\<exists>out. fix_punctuation_tells U self text = Some out"
proof -
  obtain t0 where t0: "(if em_dash \<in> set text
       then clean_parts U 0 (split_on em_dash text) [] \<bind> (\<lambda>cleaned_parts. Some (join (str ''. '') cleaned_parts))
       else Some text) = Some t0"
  proof (cases "em_dash \<in> set text")
    case True
    obtain ps where "clean_parts U 0 (split_on em_dash text) [] = Some ps"
      using clean_parts_total by blast
    with True that show ?thesis
      by simp
  next
    case False
    with that show ?thesis
      by simp
  qed
  obtain t1 where t1: "re_sub U no_flags (Rep 2 (cls ''!'')) (literal (str ''!'')) t0 = Some t1"
    using re_sub_literal by blast
  obtain t2 where t2: "re_sub U no_flags (Rep 2 (cls ''?'')) (literal (str ''?'')) t1 = Some t2"
    using re_sub_literal by blast
  obtain t3 where t3: "re_sub U no_flags (Rep 3 (cls ''.'')) (literal (str ''...'')) t2 = Some t3"
    using re_sub_literal by blast
  show ?thesis
    unfolding fix_punctuation_tells_def excessive_punctuation_def using t0 t1 t2 t3 by simp
qed

lemma capitalize_start_total: "\<exists>out. capitalize_start U text = Some out"
  by (simp add: capitalize_start_def Let_def index_def)

lemma remove_hedging_language_total: "\<exists>out. remove_hedging_language U self text = Some out"
proof -
  obtain t where "remove_each U IGNORECASE (remove_phrases self) text = Some t"
    using remove_each_total by blast
  then show ?thesis
    unfolding remove_hedging_language_def using capitalize_start_total[of U t] by simp
qed

lemma fix_youtube_title_tells_total: "\<exists>out. fix_youtube_title_tells U self text = Some out"
proof -
  obtain t1 where t1: "re_sub U no_flags (Rep 2 (cls ''!?'')) (literal []) text = Some t1"
    using re_sub_literal by blast
  obtain t2 where t2: "(if 30 < length t1
       then remove_each U no_flags (map (\<lambda>word. Seq word (Rep 0 [CSpace])) buzzwords) t1
       else Some t1) = Some t2"
    using remove_each_total[of U no_flags _ t1] by (cases "30 < length t1") auto
  obtain t3 where t3: "(if 40 < length t2
       then replace_each U IGNORECASE
              (map (\<lambda>adj. (Seq adj (seqs [Rep 1 [CSpace], lit ''guide'', WordB]), str ''guide''))
                 generic_adjectives) t2
       else Some t2) = Some t3"
    using replace_each_total[of U IGNORECASE _ t2] by (cases "40 < length t2") auto
  show ?thesis
    unfolding fix_youtube_title_tells_def using t1 t2 t3 by simp
qed

lemma fix_youtube_description_tells_total:
  "\<exists>out. fix_youtube_description_tells U self text = Some out"
proof -
  obtain t1 where t1: "remove_each U IGNORECASE (youtube_intro_phrases self) text = Some t1"
    using remove_each_total by blast
  obtain t2 where t2: "remove_each U IGNORECASE subscribe_patterns t1 = Some t2"
    using remove_each_total by blast
  show ?thesis
    unfolding fix_youtube_description_tells_def using t1 t2 capitalize_start_total[of U t2] by simp
qed

lemma re_sub_groups:
  assumes "\<And>m g. (\<forall>k\<in>set ks. \<exists>v. map_of g k = Some v) \<Longrightarrow> \<exists>x. repl (m, g) = Some x"
    and "\<forall>k\<in>set ks. binds r k"
  shows "\<exists>t. re_sub U f r repl text = Some t"
  unfolding re_sub_def
proof (rule subst_total)
  fix m
  assume m: "Mat m \<in> set (scan U f r False [] text)"
  obtain w g where e: "m = (w, g)"
    by (cases m)
  have "\<forall>k\<in>set ks. \<exists>v. map_of g k = Some v"
    using scan_groups m e assms(2) by blast
  with assms(1) e show "\<exists>x. repl m = Some x"
    by blast
qed

lemma clean_whitespace_total: "\<exists>out. clean_whitespace U self text = Some out"
proof -
  obtain t1 where t1: "re_sub U no_flags (Rep 2 (cls '' '')) (literal (str '' '')) text = Some t1"
    using re_sub_literal by blast
  have "\<exists>t. re_sub U no_flags (seqs [Rep 1 [CSpace], Grp 1 (Cls (cls ''!?.,;'')), Rep 1 [CSpace]])
              (expand [TGroup 1, TLit (str '' '')]) t1 = Some t"
    by (rule re_sub_groups[where ks = "[1]"]) (auto simp: group_def seqs_def)
  then obtain t2 where t2: "re_sub U no_flags
      (seqs [Rep 1 [CSpace], Grp 1 (Cls (cls ''!?.,;'')), Rep 1 [CSpace]])
      (expand [TGroup 1, TLit (str '' '')]) t1 = Some t2"
    by blast
  have "\<exists>t. re_sub U MULTILINE (seqs [Rep 1 [CSpace], Grp 1 (Cls (cls ''!?.,;'')), Eol])
              (expand [TGroup 1]) t2 = Some t"
    by (rule re_sub_groups[where ks = "[1]"]) (auto simp: group_def seqs_def)
  then obtain t3 where t3: "re_sub U MULTILINE
      (seqs [Rep 1 [CSpace], Grp 1 (Cls (cls ''!?.,;'')), Eol]) (expand [TGroup 1]) t2 = Some t3"
    by blast
  have "\<exists>t. re_sub U no_flags (seqs [Grp 1 (Cls (cls ''.,!?;:'')), Grp 2 (Cls letters)])
              (add_space_after_punct U) t3 = Some t"
    by (rule re_sub_groups[where ks = "[1, 2]"]) (auto simp: group_def seqs_def add_space_after_punct_def)
  then obtain t4 where t4: "re_sub U no_flags
      (seqs [Grp 1 (Cls (cls ''.,!?;:'')), Grp 2 (Cls letters)]) (add_space_after_punct U) t3 = Some t4"
    by blast
  obtain t5 where t5: "re_sub U no_flags (Rep 3 [CChar 10]) (literal [10, 10]) t4 = Some t5"
    using re_sub_literal by blast
  show ?thesis
    unfolding clean_whitespace_def using t1 t2 t3 t4 t5 by simp
qed

lemma humanize_total: "\<exists>out. humanize U self text content_type = Some out"
proof (cases "text = [] \<or> strip text = []")
  case True
  then show ?thesis
    by (simp add: humanize_def)
next
  case False
  obtain t1 where t1: "fix_punctuation_tells U self text = Some t1"
    using fix_punctuation_tells_total by blast
  obtain t2 where t2: "replace_ai_word_choices U self t1 = Some t2"
    unfolding replace_ai_word_choices_def using replace_each_total by blast
  obtain t3 where t3: "remove_hedging_language U self t2 = Some t3"
    using remove_hedging_language_total by blast
  obtain t4 where t4: "(if content_type = str ''youtube_title'' then fix_youtube_title_tells U self t3
       else if content_type = str ''youtube_description''
         then fix_youtube_description_tells U self t3
       else if content_type = str ''youtube_tags'' then Some t3
       else Some t3) = Some t4"
    using fix_youtube_title_tells_total[of U self t3] fix_youtube_description_tells_total[of U self t3]
    by (cases "content_type = str ''youtube_title''";
        cases "content_type = str ''youtube_description''") auto
  obtain t5 where t5: "(if aggressive self then add_contractions U self t4 else Some t4) = Some t5"
    unfolding add_contractions_def using replace_each_total[of U IGNORECASE "contractions self" t4]
    by (cases "aggressive self") auto
  obtain t6 where t6: "clean_whitespace U self t5 = Some t6"
    using clean_whitespace_total by blast
  show ?thesis
    unfolding humanize_def using False t1 t2 t3 t4 t5 t6 by simp
qed


section \<open>The entry point\<close>

lemma strip_blank:
  assumes "\<forall>c\<in>set text. is_space c"
  shows "strip text = []"
proof -
  from assms have d: "dropWhile is_space text = []"
    by simp
  show ?thesis
    unfolding strip_def d by simp
qed

text \<open>
  Claim C7. For every content type and either value of the aggressive flag, \<open>humanize\<close>
  returns an empty or whitespace-only input as it is: not trimmed, not transformed.
  This holds whatever the Unicode tables are.
\<close>

theorem humanize_blank_unchanged:
  "text = [] \<or> (\<forall>c\<in>set text. is_space c) \<Longrightarrow>
   humanize U (init aggr) text content_type = Some text"
  using strip_blank[of "text"] by (auto simp: humanize_def)

theorem humanize_blank_unchanged_witness:
  "is_space 32 \<and> is_space 9 \<and> is_space 10 \<and>
   humanize ascii_tables (init True) [32, 9, 10, 32] (str ''youtube_title'') =
     Some [32, 9, 10, 32]"
  using humanize_blank_unchanged[of "[32, 9, 10, 32]" ascii_tables True "str ''youtube_title''"]
  by (simp add: is_space_def)

text \<open>
  Claim C8. For every input text, every content type and either value of the aggressive
  flag, the pipeline returns a string and raises nothing; so does every stage on every
  text: no index, no group reference and no template expansion fails. This holds
  whatever the Unicode tables are.
\<close>

theorem humanize_never_raises:
  "(\<exists>out. humanize_text U text content_type aggr = Some out) \<and>
   (\<exists>out. fix_punctuation_tells U self text = Some out) \<and>
   (\<exists>out. replace_ai_word_choices U self text = Some out) \<and>
   (\<exists>out. remove_hedging_language U self text = Some out) \<and>
   (\<exists>out. fix_youtube_title_tells U self text = Some out) \<and>
   (\<exists>out. fix_youtube_description_tells U self text = Some out) \<and>
   (\<exists>out. add_contractions U self text = Some out) \<and>
   (\<exists>out. clean_whitespace U self text = Some out)"
  using humanize_total[of U "init aggr" "text" content_type]
    fix_punctuation_tells_total[of U self "text"]
    replace_each_total[of U IGNORECASE "word_replacements self" "text"]
    remove_hedging_language_total[of U self "text"]
    fix_youtube_title_tells_total[of U self "text"]
    fix_youtube_description_tells_total[of U self "text"]
    replace_each_total[of U IGNORECASE "contractions self" "text"]
    clean_whitespace_total[of U self "text"]
  by (simp add: humanize_text_def replace_ai_word_choices_def add_contractions_def)

text \<open>
  Claim C10. \<open>humanize\<close> takes any string as content type without raising. Every value
  other than \<open>youtube_title\<close> and \<open>youtube_description\<close> skips the content-type stage, so
  the result is the one for \<open>general\<close>, for every text and either flag, whatever
  the Unicode tables are.
\<close>

theorem humanize_other_content_type:
  "content_type \<noteq> str ''youtube_title'' \<Longrightarrow> content_type \<noteq> str ''youtube_description'' \<Longrightarrow>
   humanize_text U text content_type aggr = humanize_text U text (str ''general'') aggr \<and>
   (\<exists>out. humanize_text U text content_type aggr = Some out)"
  using humanize_total[of U "init aggr" "text" content_type]
  by (simp add: humanize_text_def humanize_def str_def)

theorem humanize_other_content_type_witness:
  "str ''title'' \<noteq> str ''youtube_title'' \<and> str ''title'' \<noteq> str ''youtube_description'' \<and>
   humanize_text ascii_tables (str ''Hi!!'') (str ''title'') True =
     humanize_text ascii_tables (str ''Hi!!'') (str ''general'') True \<and>
   (\<exists>out. humanize_text ascii_tables (str ''Hi!!'') (str ''title'') True = Some out)"
proof -
  have ne: "str ''title'' \<noteq> str ''youtube_title''" "str ''title'' \<noteq> str ''youtube_description''"
    by (simp_all add: str_def)
  from ne humanize_other_content_type[OF ne, of ascii_tables "str ''Hi!!''" True] show ?thesis
    by blast
qed


section \<open>The self-test inputs\<close>

subsection \<open>The title\<close>

lemma aggressive_init: "aggressive (init aggr) = aggr"
  by (simp add: init_def)

lemma title_stage1:
  "unicode_ok U \<Longrightarrow>
   fix_punctuation_tells U self title_input =
     Some (str ''EPIC GAMING GUIDE. The ULTIMATE Comprehensive Tutorial!'')"
  by (simp add: title_input_def text_eval regex_eval program_eval cong: bind_weak_cong)

lemma title_stage2:
  "unicode_ok U \<Longrightarrow>
   replace_ai_word_choices U (init aggr)
     (str ''EPIC GAMING GUIDE. The ULTIMATE Comprehensive Tutorial!'') =
     Some (str ''EPIC GAMING GUIDE. The ULTIMATE complete Tutorial!'')"
  by (simp add: text_eval regex_eval program_eval cong: bind_weak_cong)

lemma title_stage3:
  "unicode_ok U \<Longrightarrow>
   remove_hedging_language U (init aggr) (str ''EPIC GAMING GUIDE. The ULTIMATE complete Tutorial!'') =
     Some (str ''EPIC GAMING GUIDE. The ULTIMATE complete Tutorial!'')"
  by (simp add: text_eval regex_eval program_eval cong: bind_weak_cong)

lemma title_stage4:
  "unicode_ok U \<Longrightarrow>
   fix_youtube_title_tells U self (str ''EPIC GAMING GUIDE. The ULTIMATE complete Tutorial!'') =
     Some (str ''GAMING GUIDE. The ULTIMATE complete Tutorial!'')"
  by (simp add: text_eval regex_eval program_eval cong: bind_weak_cong)

lemma title_stage5:
  "unicode_ok U \<Longrightarrow>
   add_contractions U (init aggr) (str ''GAMING GUIDE. The ULTIMATE complete Tutorial!'') =
     Some (str ''GAMING GUIDE. The ULTIMATE complete Tutorial!'')"
  by (simp add: text_eval regex_eval program_eval cong: bind_weak_cong)

lemma title_stage6:
  "unicode_ok U \<Longrightarrow>
   clean_whitespace U self (str ''GAMING GUIDE. The ULTIMATE complete Tutorial!'') =
     Some (str ''GAMING GUIDE. The ULTIMATE complete Tutorial!'')"
  by (simp add: text_eval regex_eval program_eval cong: bind_weak_cong)

lemma title_output:
  assumes ok: "unicode_ok U"
  shows "humanize_text U title_input (str ''youtube_title'') aggr =
     Some (str ''GAMING GUIDE. The ULTIMATE complete Tutorial!'')"
proof -
  have a: "title_input \<noteq> []" "strip title_input \<noteq> []"
    by (simp_all add: title_input_def text_eval)
  have b: "strip (str ''GAMING GUIDE. The ULTIMATE complete Tutorial!'') =
      str ''GAMING GUIDE. The ULTIMATE complete Tutorial!''"
    by (simp add: text_eval)
  show ?thesis
    unfolding humanize_text_def humanize_def
    using a b
    by (simp add: title_stage1[OF ok] title_stage2[OF ok] title_stage3[OF ok] title_stage4[OF ok]
        title_stage5[OF ok] title_stage6[OF ok])
qed

text \<open>
  Claim C4, as stated: in title mode the pipeline leaves no run of terminal \<open>!\<close> or \<open>?\<close>
  in the output for the self-test title. It fails: the output ends with \<open>!\<close>
  (code point 33), and \<open>ULTIMATE\<close> is still in it. The input is in ASCII but for its em
  dash, so the table \<open>ascii_tables\<close> gives what the interpreter gives.
\<close>

theorem title_keeps_exclamation:
  "map_option last (humanize_text ascii_tables title_input (str ''youtube_title'') False) = Some 33 \<and>
   map_option (contains (str ''ULTIMATE''))
     (humanize_text ascii_tables title_input (str ''youtube_title'') False) = Some True"
  by (simp add: title_output[OF ascii_tables_ok]) (simp add: str_def)

text \<open>
  Claim C4, amended. In title mode, with either flag, the self-test title becomes
  \<open>GAMING GUIDE. The ULTIMATE complete Tutorial!\<close>: the buzzword \<open>EPIC\<close> and the space
  after it are removed; the run \<open>!!!\<close> was collapsed to one \<open>!\<close> by the first stage, so
  the title stage finds no run of two to delete and the \<open>!\<close> stays; no listed adjective
  stands before \<open>guide\<close>, so nothing is collapsed, and \<open>Comprehensive\<close> is replaced by
  \<open>complete\<close> in the second stage. This holds for all tables with the facts of
  \<open>unicode_ok\<close>, those of the interpreter among them.
\<close>

theorem title_pipeline_output:
  "unicode_ok U \<Longrightarrow>
   humanize_text U title_input (str ''youtube_title'') False =
     Some (str ''GAMING GUIDE. The ULTIMATE complete Tutorial!'') \<and>
   humanize_text U title_input (str ''youtube_title'') True =
     Some (str ''GAMING GUIDE. The ULTIMATE complete Tutorial!'')"
  by (simp add: title_output)

theorem title_pipeline_output_witness:
  "humanize_text ascii_tables title_input (str ''youtube_title'') False =
     Some (str ''GAMING GUIDE. The ULTIMATE complete Tutorial!'') \<and>
   humanize_text ascii_tables title_input (str ''youtube_title'') True =
     Some (str ''GAMING GUIDE. The ULTIMATE complete Tutorial!'')"
  using title_pipeline_output[OF ascii_tables_ok] by simp

subsection \<open>The hedging sentence\<close>

text \<open>
  Claim C2. On the self-test sentence \<open>remove_hedging_language\<close> deletes both hedge
  phrases and capitalises the first letter of the text only: the second sentence starts
  with a lowercase \<open>we\<close>, where the claim has \<open>We\<close>. This holds for all tables with the
  facts of \<open>unicode_ok\<close>, those of the interpreter among them.
\<close>

theorem remove_hedging_language_self_test:
  "unicode_ok U \<Longrightarrow>
   remove_hedging_language U (init aggr) hedging_input =
     Some (str ''This is important. we should proceed.'')"
  by (simp add: hedging_input_def text_eval regex_eval program_eval cong: bind_weak_cong)

theorem remove_hedging_language_self_test_witness:
  "remove_hedging_language ascii_tables (init False) hedging_input =
     Some (str ''This is important. we should proceed.'')"
  using remove_hedging_language_self_test[OF ascii_tables_ok] by simp

text \<open>
  The docstring of \<open>humanize_text\<close> gives \<open>EPIC GAMING. This is amazing!\<close> for its second
  example, with a capital after the removed hedge. The function returns a lowercase
  \<open>this\<close> there as well.
\<close>

lemma docstring_stage1:
  "unicode_ok U \<Longrightarrow>
   fix_punctuation_tells U self docstring_input =
     Some (str ''EPIC GAMING. It's worth noting that this is amazing!'')"
  by (simp add: docstring_input_def text_eval regex_eval program_eval cong: bind_weak_cong)

lemma docstring_stage2:
  "unicode_ok U \<Longrightarrow>
   replace_ai_word_choices U (init aggr) (str ''EPIC GAMING. It's worth noting that this is amazing!'') =
     Some (str ''EPIC GAMING. It's worth noting that this is amazing!'')"
  by (simp add: text_eval regex_eval program_eval cong: bind_weak_cong)

lemma docstring_stage3:
  "unicode_ok U \<Longrightarrow>
   remove_hedging_language U (init aggr) (str ''EPIC GAMING. It's worth noting that this is amazing!'') =
     Some (str ''EPIC GAMING. this is amazing!'')"
  by (simp add: text_eval regex_eval program_eval cong: bind_weak_cong)

lemma docstring_stage6:
  "unicode_ok U \<Longrightarrow>
   clean_whitespace U self (str ''EPIC GAMING. this is amazing!'') =
     Some (str ''EPIC GAMING. this is amazing!'')"
  by (simp add: text_eval regex_eval program_eval cong: bind_weak_cong)

lemma docstring_output:
  assumes ok: "unicode_ok U"
  shows "humanize_text U docstring_input (str ''general'') False =
     Some (str ''EPIC GAMING. this is amazing!'')"
proof -
  have a: "docstring_input \<noteq> []" "strip docstring_input \<noteq> []"
    by (simp_all add: docstring_input_def text_eval)
  have b: "strip (str ''EPIC GAMING. this is amazing!'') = str ''EPIC GAMING. this is amazing!''"
    by (simp add: text_eval)
  have c: "str ''general'' \<noteq> str ''youtube_title''" "str ''general'' \<noteq> str ''youtube_description''"
    by (simp_all add: str_def)
  show ?thesis
    unfolding humanize_text_def humanize_def
    using a b c
    by (simp add: docstring_stage1[OF ok] docstring_stage2[OF ok] docstring_stage3[OF ok]
        docstring_stage6[OF ok] aggressive_init)
qed

subsection \<open>Space after punctuation\<close>

text \<open>
  Claim C1. \<open>clean_whitespace\<close> leaves \<open>file.txt\<close> alone and puts a space into
  \<open>word.Next\<close>, as claimed. The pattern captures one letter after the mark, so the
  length test of \<open>add_space_after_punct\<close> is always true: after a full stop a lowercase
  letter never gets a space, however long the run of lowercase letters is, and
  \<open>stop.again\<close> (five lowercase letters) stays as it is, where the claim has a space.
  This holds for all tables with the facts of \<open>unicode_ok\<close>, those of the interpreter
  among them.
\<close>

theorem clean_whitespace_full_stop:
  "unicode_ok U \<Longrightarrow>
   clean_whitespace U self (str ''file.txt'') = Some (str ''file.txt'') \<and>
   clean_whitespace U self (str ''word.Next'') = Some (str ''word. Next'') \<and>
   clean_whitespace U self (str ''stop.again'') = Some (str ''stop.again'') \<and>
   clean_whitespace U self (str ''stop,again'') = Some (str ''stop, again'')"
  by (simp add: text_eval regex_eval program_eval cong: bind_weak_cong)

theorem clean_whitespace_full_stop_witness:
  "clean_whitespace ascii_tables (init False) (str ''file.txt'') = Some (str ''file.txt'') \<and>
   clean_whitespace ascii_tables (init False) (str ''word.Next'') = Some (str ''word. Next'') \<and>
   clean_whitespace ascii_tables (init False) (str ''stop.again'') = Some (str ''stop.again'') \<and>
   clean_whitespace ascii_tables (init False) (str ''stop,again'') = Some (str ''stop, again'')"
  using clean_whitespace_full_stop[OF ascii_tables_ok] by simp


section \<open>Em dashes\<close>

lemma clean_parts_after_first:
  "0 < i \<Longrightarrow> clean_parts U i parts cleaned =
     Some (cleaned @ map (capitalize_first U) (filter (\<lambda>s. s \<noteq> []) (map strip parts)))"
proof (induction parts arbitrary: i cleaned)
  case Nil
  then show ?case
    by simp
next
  case (Cons part parts)
  show ?case
  proof (cases "strip part")
    case Nil
    with Cons show ?thesis
      by simp
  next
    case (Cons c cs)
    with Cons.prems Cons.IH[of "i + 1"] show ?thesis
      by (cases cs) (simp_all add: capitalize_first_def index_def)
  qed
qed

lemma split_on_not_Nil: "split_on sep s \<noteq> []"
  by (cases s) (auto split: list.splits)

lemma clean_parts_sentences:
  "clean_parts U 0 (split_on em_dash text) [] = Some cleaned \<Longrightarrow>
   join (str ''. '') cleaned = em_dash_sentences U text"
proof -
  assume h: "clean_parts U 0 (split_on em_dash text) [] = Some cleaned"
  obtain p ps where e: "split_on em_dash text = p # ps"
    using split_on_not_Nil[of em_dash "text"] by (cases "split_on em_dash text") auto
  have "clean_parts U 0 (p # ps) [] =
      Some (filter (\<lambda>s. s \<noteq> []) [strip p] @
            map (capitalize_first U) (filter (\<lambda>s. s \<noteq> []) (map strip ps)))"
    using clean_parts_after_first[of 1 U ps] by (simp add: Let_def)
  with h e have "cleaned = filter (\<lambda>s. s \<noteq> []) [strip p] @
      map (capitalize_first U) (filter (\<lambda>s. s \<noteq> []) (map strip ps))"
    by simp
  then show ?thesis
    by (simp add: em_dash_sentences_def e)
qed

lemma fix_punctuation_tells_sentences:
  "fix_punctuation_tells U self text =
     excessive_punctuation U (if em_dash \<in> set text then em_dash_sentences U text else text)"
proof (cases "em_dash \<in> set text")
  case True
  obtain cleaned where c: "clean_parts U 0 (split_on em_dash text) [] = Some cleaned"
    using clean_parts_total by blast
  with True clean_parts_sentences[OF c] show ?thesis
    by (simp add: fix_punctuation_tells_def)
next
  case False
  then show ?thesis
    by (simp add: fix_punctuation_tells_def)
qed

text \<open>
  Claim C5. \<open>fix_punctuation_tells\<close> handles em dashes as the specification says: the
  text is split on the em dash, every segment is trimmed, the first code point of every
  non-empty segment after the first is put in upper case by \<open>str.upper\<close> (which may
  give more than one code point), and the non-empty segments are joined with \<open>. \<close>; the
  punctuation runs are collapsed afterwards. This holds for every text and whatever the
  Unicode tables are. With the tables of the interpreter the self-test sentence becomes
  \<open>This is a test. And it continues here\<close>, and consecutive or trailing em dashes give
  no empty sentence.
\<close>

theorem fix_punctuation_tells_em_dash:
  assumes ok: "unicode_ok U"
  shows "fix_punctuation_tells U self text =
     excessive_punctuation U (if em_dash \<in> set text then em_dash_sentences U text else text) \<and>
   fix_punctuation_tells U self em_dash_input = Some (str ''This is a test. And it continues here'') \<and>
   fix_punctuation_tells U self (str ''one '' @ [em_dash, em_dash] @ str '' two '' @ [em_dash]) =
     Some (str ''one. Two'')"
proof -
  have "fix_punctuation_tells U self em_dash_input = Some (str ''This is a test. And it continues here'')"
    using ok by (simp add: em_dash_input_def text_eval regex_eval program_eval cong: bind_weak_cong)
  moreover have "fix_punctuation_tells U self (str ''one '' @ [em_dash, em_dash] @ str '' two '' @ [em_dash]) =
      Some (str ''one. Two'')"
    using ok by (simp add: text_eval regex_eval program_eval cong: bind_weak_cong)
  ultimately show ?thesis
    using fix_punctuation_tells_sentences by blast
qed

theorem fix_punctuation_tells_em_dash_witness:
  "fix_punctuation_tells ascii_tables (init False) (str ''a '' @ [em_dash] @ str ''b'') =
     excessive_punctuation ascii_tables
       (if em_dash \<in> set (str ''a '' @ [em_dash] @ str ''b'')
        then em_dash_sentences ascii_tables (str ''a '' @ [em_dash] @ str ''b'')
        else str ''a '' @ [em_dash] @ str ''b'') \<and>
   fix_punctuation_tells ascii_tables (init False) em_dash_input =
     Some (str ''This is a test. And it continues here'') \<and>
   fix_punctuation_tells ascii_tables (init False)
     (str ''one '' @ [em_dash, em_dash] @ str '' two '' @ [em_dash]) = Some (str ''one. Two'')"
  using fix_punctuation_tells_em_dash[OF ascii_tables_ok] by blast

section \<open>The tell detector\<close>

lemma word_loop_append:
  "word_loop U ws text tells =
     tells @ concat (map (\<lambda>word. map (\<lambda>m. (str word, Text m))
                                   (findall U IGNORECASE (ai_word_pattern word) text)) ws)"
  by (induction ws arbitrary: tells) (simp_all add: Let_def)

lemma hedging_loop_append:
  "hedging_loop U ps text tells =
     tells @ map (\<lambda>phrase. (str ''hedging'', Text (str phrase)))
               (filter (\<lambda>phrase. contains (str phrase) (lower U text)) ps)"
  by (induction ps arbitrary: tells) simp_all

text \<open>
  Claim C9. \<open>detect_ai_tells\<close> returns its records in the order of the specification:
  one record for every match of an AI word, the words in the order of the list; then,
  when the text has an em dash, one record with the number of em dashes; then one record
  for every hedging phrase that occurs in the text put in lower case by \<open>str.lower\<close>,
  however often, in the order of the list. It is a function of the text and changes
  nothing. This holds for every text and whatever the Unicode tables are. With the
  tables of the interpreter, the text \<open>tells_input\<close> gives the words in the order of the
  list and not of the text, with the case they have in the text, and its two phrases,
  which it has in upper and mixed case only, in the order of the list.
\<close>

theorem detect_ai_tells_order:
  assumes ok: "unicode_ok U"
  shows "detect_ai_tells U text = tells_in_order U text \<and>
   detect_ai_tells U tells_input =
     [(str ''delve'', Text (str ''Delve'')), (str ''delve'', Text (str ''delves'')),
      (str ''robust'', Text (str ''ROBUST'')), (str ''em_dash'', Count 2),
      (str ''hedging'', Text (str ''generally speaking'')),
      (str ''hedging'', Text (str ''in today's digital landscape''))]"
proof -
  have "detect_ai_tells U text = tells_in_order U text"
    by (simp add: detect_ai_tells_def tells_in_order_def word_loop_append hedging_loop_append
        Let_def)
  moreover have "detect_ai_tells U tells_input =
     [(str ''delve'', Text (str ''Delve'')), (str ''delve'', Text (str ''delves'')),
      (str ''robust'', Text (str ''ROBUST'')), (str ''em_dash'', Count 2),
      (str ''hedging'', Text (str ''generally speaking'')),
      (str ''hedging'', Text (str ''in today's digital landscape''))]"
    using ok
    by (simp add: tells_input_def detect_ai_tells_def ai_words_def hedging_def
        ai_word_pattern_def text_eval regex_eval)
  ultimately show ?thesis
    by blast
qed

theorem detect_ai_tells_order_witness:
  "detect_ai_tells ascii_tables (str ''GENERALLY speaking'') =
     tells_in_order ascii_tables (str ''GENERALLY speaking'') \<and>
   detect_ai_tells ascii_tables tells_input =
     [(str ''delve'', Text (str ''Delve'')), (str ''delve'', Text (str ''delves'')),
      (str ''robust'', Text (str ''ROBUST'')), (str ''em_dash'', Count 2),
      (str ''hedging'', Text (str ''generally speaking'')),
      (str ''hedging'', Text (str ''in today's digital landscape''))]"
  using detect_ai_tells_order[OF ascii_tables_ok] by blast

section \<open>Word boundaries\<close>

lemma rep_run_advance:
  "(b', a', g') \<in> set (rep_run p n (b, a, g)) \<Longrightarrow>
   \<exists>k\<le>length a. a' = drop k a \<and> b' = rev (take k a) @ b"
proof (induction a arbitrary: n b)
  case Nil
  then show ?case
    by (auto split: if_splits)
next
  case (Cons c cs)
  from Cons.prems have "(p c \<and> (b', a', g') \<in> set (rep_run p (n - 1) (c # b, cs, g))) \<or>
      (b', a', g') = (b, c # cs, g)"
    by (auto split: if_splits)
  then show ?case
  proof
    assume "p c \<and> (b', a', g') \<in> set (rep_run p (n - 1) (c # b, cs, g))"
    with Cons.IH obtain k where "k \<le> length cs" "a' = drop k cs" "b' = rev (take k cs) @ c # b"
      by blast
    then show ?thesis
      by (intro exI[of _ "Suc k"]) simp
  next
    assume "(b', a', g') = (b, c # cs, g)"
    then show ?thesis
      by (intro exI[of _ 0]) simp
  qed
qed

lemma ms_advance:
  "(b', a', g') \<in> set (ms U f r (b, a, g)) \<Longrightarrow>
   \<exists>k\<le>length a. a' = drop k a \<and> b' = rev (take k a) @ b"
proof (induction r arbitrary: b a g b' a' g')
  case Eps
  then show ?case
    by (intro exI[of _ 0]) simp
next
  case (Chr d)
  then show ?case
    by (cases a) (auto split: if_splits intro!: exI[of _ "Suc 0"])
next
  case (Cls ds)
  then show ?case
    by (cases a) (auto split: if_splits intro!: exI[of _ "Suc 0"])
next
  case (Seq r1 r2)
  from Seq.prems obtain s1 where s1: "s1 \<in> set (ms U f r1 (b, a, g))"
      "(b', a', g') \<in> set (ms U f r2 s1)"
    by auto
  obtain b1 a1 g1 where e: "s1 = (b1, a1, g1)"
    by (cases s1) auto
  from s1(1) e Seq.IH(1) obtain k where k: "k \<le> length a" "a1 = drop k a" "b1 = rev (take k a) @ b"
    by blast
  from s1(2) e Seq.IH(2) obtain j where j: "j \<le> length a1" "a' = drop j a1" "b' = rev (take j a1) @ b1"
    by blast
  from k j have "k + j \<le> length a" "a' = drop (k + j) a"
    by (simp_all add: add.commute)
  moreover from k j have "b' = rev (take (k + j) a) @ b"
    by (simp add: take_add)
  ultimately show ?case
    by blast
next
  case (Alt r1 r2)
  from Alt.prems have "(b', a', g') \<in> set (ms U f r1 (b, a, g)) \<or> (b', a', g') \<in> set (ms U f r2 (b, a, g))"
    by simp
  with Alt.IH show ?case
    by blast
next
  case (Opt r)
  from Opt.prems have "(b', a', g') \<in> set (ms U f r (b, a, g)) \<or> (b', a', g') = (b, a, g)"
    by auto
  then show ?case
  proof
    assume "(b', a', g') \<in> set (ms U f r (b, a, g))"
    with Opt.IH show ?thesis
      by blast
  next
    assume "(b', a', g') = (b, a, g)"
    then show ?thesis
      by (intro exI[of _ 0]) simp
  qed
next
  case (Rep n ds)
  then show ?case
    using rep_run_advance by simp
next
  case (Grp i r)
  from Grp.prems obtain g0 where "(b', a', g0) \<in> set (ms U f r (b, a, g))"
    by auto
  with Grp.IH show ?case
    by blast
next
  case WordB
  then show ?case
    by (intro exI[of _ 0]) (auto split: if_splits)
next
  case Bol
  then show ?case
    by (intro exI[of _ 0]) (auto split: if_splits)
next
  case Eol
  then show ?case
    by (intro exI[of _ 0]) (auto split: if_splits)
qed

lemma match_here_state:
  assumes "match_here U f r adv b a = Some (n, g)"
  shows "(rev (take n a) @ b, drop n a, g) \<in> set (ms U f r (b, a, []))"
proof -
  let ?xs = "map (\<lambda>(b', a', g'). (length a - length a', g')) (ms U f r (b, a, []))"
  from assms obtain rest where "filter (\<lambda>(n, g). \<not> adv \<or> 0 < n) ?xs = (n, g) # rest"
    by (auto simp: match_here_def split: list.splits)
  then have "(n, g) \<in> set (filter (\<lambda>(n, g). \<not> adv \<or> 0 < n) ?xs)"
    by simp
  then have "(n, g) \<in> set ?xs"
    by simp
  then obtain b' a' where m: "(b', a', g) \<in> set (ms U f r (b, a, []))" "n = length a - length a'"
    by auto
  from ms_advance[OF m(1)] obtain k where k: "k \<le> length a" "a' = drop k a" "b' = rev (take k a) @ b"
    by blast
  with m(2) have "n = k"
    by simp
  with k m(1) show ?thesis
    by simp
qed

section \<open>Applying a stage twice\<close>

lemma cls_has_single: "cls_has U no_flags [CChar c] x \<longleftrightarrow> x = c"
  by (simp add: cls_has_def no_flags_def)

lemma rep_run_none:
  "m < n \<Longrightarrow> rest = [] \<or> hd rest \<noteq> c \<Longrightarrow>
   rep_run (\<lambda>x. x = c) n (b, replicate m c @ rest, g) = []"
proof (induction m arbitrary: n b)
  case 0
  then show ?case
    by (cases rest) auto
next
  case (Suc m)
  from Suc.prems have "m < n - 1"
    by simp
  with Suc.IH[of "n - 1" "c # b"] Suc.prems show ?case
    by simp
qed

lemma rep_run_hd:
  "n \<le> m \<Longrightarrow> rest = [] \<or> hd rest \<noteq> c \<Longrightarrow>
   \<exists>more. rep_run (\<lambda>x. x = c) n (b, replicate m c @ rest, g) = (replicate m c @ b, rest, g) # more"
proof (induction m arbitrary: n b)
  case 0
  then show ?case
    by (cases rest) auto
next
  case (Suc m)
  from Suc.prems have "n - 1 \<le> m"
    by simp
  from Suc.IH[OF this Suc.prems(2), of "c # b"] show ?case
    by (auto simp: replicate_app_Cons_same)
qed

lemma match_here_run:
  assumes "0 < k" and "rest = [] \<or> hd rest \<noteq> c"
  shows "match_here U no_flags (Rep k [CChar c]) adv b (replicate m c @ rest) =
    (if k \<le> m then Some (m, []) else None)"
proof (cases "k \<le> m")
  case True
  obtain more where "rep_run (\<lambda>x. x = c) k (b, replicate m c @ rest, []) = (replicate m c @ b, rest, []) # more"
    using rep_run_hd[OF True assms(2)] by blast
  with True assms(1) show ?thesis
    by (simp add: match_here_def cls_has_single[abs_def])
next
  case False
  then have "rep_run (\<lambda>x. x = c) k (b, replicate m c @ rest, []) = []"
    using rep_run_none assms(2) by simp
  with False show ?thesis
    by (simp add: match_here_def cls_has_single[abs_def])
qed

lemma scan_short_run:
  assumes "0 < k" and "rest = [] \<or> hd rest \<noteq> c" and "m < k"
  shows "scan U no_flags (Rep k [CChar c]) adv b (replicate m c @ rest) =
    map Txt (replicate m c) @ scan U no_flags (Rep k [CChar c]) (adv \<and> m = 0) (replicate m c @ b) rest"
  using assms(3)
proof (induction m arbitrary: b adv)
  case 0
  then show ?case
    by simp
next
  case (Suc m)
  have "match_here U no_flags (Rep k [CChar c]) adv b (replicate (Suc m) c @ rest) = None"
    using match_here_run[OF assms(1,2), of U adv b "Suc m"] Suc.prems by simp
  then have "scan U no_flags (Rep k [CChar c]) adv b (replicate (Suc m) c @ rest) =
      Txt c # scan U no_flags (Rep k [CChar c]) False (c # b) (replicate m c @ rest)"
    by (simp add: scan_skip)
  with Suc.IH[of False "c # b"] Suc.prems show ?case
    by (simp add: replicate_app_Cons_same)
qed

lemma scan_long_run:
  assumes "0 < k" and "rest = [] \<or> hd rest \<noteq> c" and "k \<le> m"
  shows "scan U no_flags (Rep k [CChar c]) adv b (replicate m c @ rest) =
    Mat (replicate m c, []) # scan U no_flags (Rep k [CChar c]) False (replicate m c @ b) rest"
proof -
  obtain m' where m': "m = Suc m'"
    using assms(1,3) by (cases m) auto
  have "match_here U no_flags (Rep k [CChar c]) adv b (replicate m c @ rest) = Some (Suc m', [])"
    using match_here_run[OF assms(1,2), of U adv b m] assms(3) m' by simp
  from scan_match[OF this] m' show ?thesis
    by (simp add: replicate_app_Cons_same)
qed

lemma subst_append:
  "subst repl (ss @ ts) = do { x \<leftarrow> subst repl ss; y \<leftarrow> subst repl ts; Some (x @ y) }"
proof (induction ss)
  case Nil
  then show ?case
    by (cases "subst repl ts") simp_all
next
  case (Cons s ss)
  then show ?case
    by (cases s; cases "subst repl ss"; cases "subst repl ts"; cases "repl (case s of Mat m \<Rightarrow> m)")
       (auto split: Option.bind_splits)
qed

lemma subst_Txt: "subst repl (map Txt xs) = Some xs"
  by (induction xs) simp_all

lemma subst_replicate_Txt: "subst repl (replicate n (Txt c)) = Some (replicate n c)"
  using subst_Txt[of repl "replicate n c"] by simp

lemma scan_run_flush:
  assumes "0 < k" and "rest = [] \<or> hd rest \<noteq> c"
  shows "subst (literal rep) (scan U no_flags (Rep k [CChar c]) False b (replicate n c @ rest)) =
    do { y \<leftarrow> subst (literal rep) (scan U no_flags (Rep k [CChar c]) False (replicate n c @ b) rest);
         Some ((if k \<le> n then rep else replicate n c) @ y) }"
proof (cases "k \<le> n")
  case True
  from scan_long_run[OF assms True, of U False b] show ?thesis
    using True by (simp add: literal_def)
next
  case False
  then have "n < k"
    by simp
  from scan_short_run[OF assms this, of U False b] show ?thesis
    using False by (simp add: subst_append subst_replicate_Txt)
qed

lemma scan_squeeze:
  "0 < k \<Longrightarrow>
   subst (literal rep) (scan U no_flags (Rep k [CChar c]) False b (replicate n c @ xs)) =
     Some (squeeze c k rep n xs)"
proof (induction xs arbitrary: n b)
  case Nil
  have e: "scan U no_flags (Rep k [CChar c]) False (replicate n c @ b) [] = []"
    using match_here_run[OF Nil, of "[]" c U False "replicate n c @ b" 0] Nil
    by (simp add: scan_end)
  from scan_run_flush[OF Nil, of "[]" c rep U b n] e show ?case
    by simp
next
  case (Cons x xs)
  show ?case
  proof (cases "x = c")
    case True
    with Cons.IH[OF Cons.prems, where n = "Suc n" and b = b] show ?thesis
      by (simp add: replicate_app_Cons_same)
  next
    case False
    have "match_here U no_flags (Rep k [CChar c]) False (replicate n c @ b) (x # xs) = None"
      using match_here_run[OF Cons.prems, of "x # xs" c U False "replicate n c @ b" 0] False Cons.prems
      by simp
    then have "scan U no_flags (Rep k [CChar c]) False (replicate n c @ b) (x # xs) =
        Txt x # scan U no_flags (Rep k [CChar c]) False (x # replicate n c @ b) xs"
      by (simp add: scan_skip)
    with scan_run_flush[OF Cons.prems, of "x # xs" c rep U b n] False
      Cons.IH[OF Cons.prems, where n = 0 and b = "x # replicate n c @ b"]
    show ?thesis
      by simp
  qed
qed

lemma re_sub_squeeze:
  "0 < k \<Longrightarrow> re_sub U no_flags (Rep k [CChar c]) (literal rep) t = Some (squeeze c k rep 0 t)"
  using scan_squeeze[of k rep U c "[]" 0 t] by (simp add: re_sub_def)


lemma runs_le_replicate_append:
  "runs_le c j n (replicate m c @ ys) = runs_le c j (n + m) ys"
  by (induction m arbitrary: n) simp_all

lemma squeeze_fixed:
  "runs_le c j n xs \<Longrightarrow> j \<le> k \<Longrightarrow> squeeze c k (replicate j c) n xs = replicate n c @ xs"
proof (induction xs arbitrary: n)
  case Nil
  then show ?case
    by auto
next
  case (Cons x xs)
  show ?case
  proof (cases "x = c")
    case True
    with Cons show ?thesis
      by (simp add: replicate_app_Cons_same)
  next
    case False
    with Cons.prems have "n \<le> j" "runs_le c j 0 xs"
      by simp_all
    with Cons.IH[of 0] Cons.prems(2) False show ?thesis
      by auto
  qed
qed

lemma squeeze_bounded:
  "k \<le> Suc j \<Longrightarrow> runs_le c j 0 (squeeze c k (replicate j c) n xs)"
proof (induction xs arbitrary: n)
  case Nil
  then show ?case
    using runs_le_replicate_append[of c j 0 _ "[]"] by auto
next
  case (Cons x xs)
  show ?case
  proof (cases "x = c")
    case True
    with Cons show ?thesis
      by simp
  next
    case False
    with Cons.IH[OF Cons.prems, of 0] Cons.prems show ?thesis
      by (auto simp: runs_le_replicate_append)
  qed
qed

lemma runs_le_other_Cons:
  "d \<noteq> c \<Longrightarrow> runs_le c j m (d # ys) = (m \<le> j \<and> runs_le c j 0 ys)"
  by simp

lemma squeeze_starts:
  "0 < n \<Longrightarrow> 0 < j \<Longrightarrow> \<exists>ys. squeeze d k (replicate j d) n xs = d # ys"
proof (induction xs arbitrary: n)
  case Nil
  then show ?case
    by (cases n; cases j) auto
next
  case (Cons x xs)
  then show ?case
    by (cases n; cases j) auto
qed

lemma runs_le_skip_other:
  "d \<noteq> c \<Longrightarrow> runs_le c j 0 (replicate q d @ ys) = runs_le c j 0 ys"
  by (induction q) simp_all

lemma runs_le_other_run:
  "d \<noteq> c \<Longrightarrow> 0 < q \<Longrightarrow> runs_le c j m (replicate q d @ ys) = (m \<le> j \<and> runs_le c j 0 ys)"
  using runs_le_skip_other[of d c j "q - 1" ys] by (cases q) simp_all

lemma squeeze_keeps_runs:
  assumes "d \<noteq> c" and "0 < j'" and "0 < k"
  shows "(if n = 0 then runs_le c j m xs else m = 0 \<and> runs_le c j 0 xs) \<Longrightarrow>
    runs_le c j m (squeeze d k (replicate j' d) n xs)"
proof (induction xs arbitrary: n m)
  case Nil
  show ?case
  proof (cases "n = 0")
    case True
    with Nil assms(3) show ?thesis
      by simp
  next
    case False
    with Nil have m: "m = 0"
      by simp
    from False assms(2) obtain q where q: "0 < q"
        "squeeze d k (replicate j' d) n [] = replicate q d"
      by (cases "k \<le> n") auto
    with m runs_le_other_run[OF assms(1) q(1), of j 0 "[]"] show ?thesis
      by simp
  qed
next
  case (Cons x xs)
  show ?case
  proof (cases "x = d")
    case True
    obtain ys where ys: "squeeze d k (replicate j' d) (Suc n) xs = d # ys"
      using squeeze_starts[of "Suc n" j' d k xs] assms(2) by auto
    from Cons.prems True assms(1) have p: "m \<le> j" "runs_le c j 0 xs"
      by (auto split: if_splits)
    from Cons.IH[of "Suc n" 0] p have "runs_le c j 0 (squeeze d k (replicate j' d) (Suc n) xs)"
      by simp
    with ys assms(1) p True show ?thesis
      by simp
  next
    case False
    have tail: "runs_le c j m' (x # squeeze d k (replicate j' d) 0 xs)" if "runs_le c j m' (x # xs)" for m'
    proof (cases "x = c")
      case True
      with that Cons.IH[of 0 "Suc m'"] show ?thesis
        by simp
    next
      case False
      with that Cons.IH[of 0 0] show ?thesis
        by simp
    qed
    show ?thesis
    proof (cases "n = 0")
      case True
      with Cons.prems tail[of m] False assms(3) show ?thesis
        by simp
    next
      case n: False
      with Cons.prems have m: "m = 0" "runs_le c j 0 (x # xs)"
        by simp_all
      from n assms(2) obtain q where q: "0 < q"
          "(if k \<le> n then replicate j' d else replicate n d) = replicate q d"
        by (cases "k \<le> n") auto
      from tail[OF m(2)] m(1) runs_le_other_run[OF assms(1) q(1), of j 0] q(2) False show ?thesis
        by simp
    qed
  qed
qed

lemma set_squeeze: "set (squeeze c k rep n xs) \<subseteq> set xs \<union> set rep \<union> {c}"
  by (induction xs arbitrary: n) (auto split: if_splits)

lemma excessive_punctuation_value:
  "excessive_punctuation U t =
     Some (squeeze 46 3 (replicate 3 46) 0 (squeeze 63 2 (replicate 1 63) 0
             (squeeze 33 2 (replicate 1 33) 0 t)))"
proof -
  have r3: "replicate 3 (46::nat) = [46, 46, 46]"
    by (simp add: numeral_3_eq_3)
  have "re_sub U no_flags (Rep 2 (cls ''!'')) (literal (str ''!'')) x = Some (squeeze 33 2 (replicate 1 33) 0 x)" for x
    using re_sub_squeeze[of 2 U 33 "[33]" x] by (simp add: cls_def str_def)
  moreover have "re_sub U no_flags (Rep 2 (cls ''?'')) (literal (str ''?'')) x = Some (squeeze 63 2 (replicate 1 63) 0 x)" for x
    using re_sub_squeeze[of 2 U 63 "[63]" x] by (simp add: cls_def str_def)
  moreover have "re_sub U no_flags (Rep 3 (cls ''.'')) (literal (str ''...'')) x = Some (squeeze 46 3 (replicate 3 46) 0 x)" for x
    using re_sub_squeeze[of 3 U 46 "[46, 46, 46]" x] unfolding r3 by (simp add: cls_def str_def)
  ultimately show ?thesis
    by (simp add: excessive_punctuation_def)
qed

lemma excessive_punctuation_idem:
  assumes "excessive_punctuation U t = Some u"
  shows "excessive_punctuation U u = Some u"
proof -
  let ?s1 = "squeeze 33 2 (replicate 1 33) 0 t"
  let ?s2 = "squeeze 63 2 (replicate 1 63) 0 ?s1"
  let ?s3 = "squeeze 46 3 (replicate 3 46) 0 ?s2"
  from assms have u: "u = ?s3"
    by (simp add: excessive_punctuation_value)
  have "runs_le 33 1 0 ?s1"
    by (rule squeeze_bounded) simp
  then have "runs_le 33 1 0 ?s2"
    by (intro squeeze_keeps_runs) simp_all
  then have a: "runs_le 33 1 0 u"
    unfolding u by (intro squeeze_keeps_runs) simp_all
  have "runs_le 63 1 0 ?s2"
    by (rule squeeze_bounded) simp
  then have b: "runs_le 63 1 0 u"
    unfolding u by (intro squeeze_keeps_runs) simp_all
  have c: "runs_le 46 3 0 u"
    unfolding u by (rule squeeze_bounded) simp
  from a have "squeeze 33 2 (replicate 1 33) 0 u = u"
    using squeeze_fixed[of 33 1 0 u 2] by simp
  moreover from b have "squeeze 63 2 (replicate 1 63) 0 u = u"
    using squeeze_fixed[of 63 1 0 u 2] by simp
  moreover from c have "squeeze 46 3 (replicate 3 46) 0 u = u"
    using squeeze_fixed[of 46 3 0 u 3] by simp
  ultimately show ?thesis
    by (simp add: excessive_punctuation_value)
qed

lemma excessive_punctuation_no_dash:
  assumes "excessive_punctuation U t = Some u" and "em_dash \<notin> set t"
  shows "em_dash \<notin> set u"
proof -
  let ?s1 = "squeeze 33 2 (replicate 1 33) 0 t"
  let ?s2 = "squeeze 63 2 (replicate 1 63) 0 ?s1"
  from assms have u: "u = squeeze 46 3 (replicate 3 46) 0 ?s2"
    by (simp add: excessive_punctuation_value)
  have "em_dash \<notin> set ?s1"
    using set_squeeze[of 33 2 "replicate 1 33" 0 t] assms(2) by (auto simp: em_dash_def)
  then have "em_dash \<notin> set ?s2"
    using set_squeeze[of 63 2 "replicate 1 63" 0 ?s1] by (auto simp: em_dash_def)
  then show ?thesis
    unfolding u using set_squeeze[of 46 3 "replicate 3 46" 0 ?s2] by (auto simp: em_dash_def)
qed

lemma split_on_no_sep: "p \<in> set (split_on sep s) \<Longrightarrow> sep \<notin> set p"
proof (induction s arbitrary: p)
  case Nil
  then show ?case
    by simp
next
  case (Cons c cs)
  then show ?case
    by (cases "split_on sep cs") (auto split: if_splits)
qed

lemma set_strip: "set (strip s) \<subseteq> set s"
proof -
  have "set (dropWhile is_space (rev (dropWhile is_space s))) \<subseteq> set (rev (dropWhile is_space s))"
    by (meson set_dropWhileD subsetI)
  moreover have "set (dropWhile is_space s) \<subseteq> set s"
    by (meson set_dropWhileD subsetI)
  ultimately show ?thesis
    by (auto simp: strip_def)
qed

lemma set_capitalize_first:
  "unicode_ok U \<Longrightarrow> em_dash \<notin> set s \<Longrightarrow> em_dash \<notin> set (capitalize_first U s)"
  using ok_upper_no_dash[of U "[hd s]"] by (cases s) (auto simp: capitalize_first_def)

lemma set_join: "set (join sep ps) \<subseteq> set sep \<union> \<Union> (set ` set ps)"
  by (induction sep ps rule: join.induct) auto

lemma em_dash_sentences_no_dash:
  assumes ok: "unicode_ok U"
  shows "em_dash \<notin> set (em_dash_sentences U text)"
proof -
  let ?segments = "map strip (split_on em_dash text)"
  let ?out = "filter (\<lambda>s. s \<noteq> []) (take 1 ?segments) @
    map (capitalize_first U) (filter (\<lambda>s. s \<noteq> []) (drop 1 ?segments))"
  have parts: "em_dash \<notin> set q" if "q \<in> set ?segments" for q
  proof -
    from that obtain p where p: "p \<in> set (split_on em_dash text)" "q = strip p"
      by auto
    with split_on_no_sep[of p em_dash "text"] set_strip[of p] show ?thesis
      by auto
  qed
  have "em_dash \<notin> set q" if "q \<in> set ?out" for q
  proof -
    from that consider "q \<in> set (take 1 ?segments)"
      | q' where "q' \<in> set (drop 1 ?segments)" "q = capitalize_first U q'"
      by auto
    then show ?thesis
    proof cases
      case 1
      then have "q \<in> set ?segments"
        by (rule in_set_takeD)
      then show ?thesis
        by (rule parts)
    next
      case 2
      from 2(1) have "q' \<in> set ?segments"
        by (rule in_set_dropD)
      then have "em_dash \<notin> set q'"
        by (rule parts)
      with 2(2) set_capitalize_first[OF ok] show ?thesis
        by simp
    qed
  qed
  then have "em_dash \<notin> \<Union> (set ` set ?out)"
    by blast
  moreover have "em_dash \<notin> set (str ''. '')"
    by (simp add: str_def em_dash_def)
  ultimately have "em_dash \<notin> set (join (str ''. '') ?out)"
    using set_join[of "str ''. ''" ?out] by blast
  then show ?thesis
    by (simp add: em_dash_sentences_def Let_def)
qed

lemma hedge_twice:
  assumes "unicode_ok U"
  shows "remove_hedging_language U (init aggr) (str ''Generally Generally speaking, speaking, fine'') =
     Some (str ''Generally speaking, fine'')"
    and "remove_hedging_language U (init aggr) (str ''Generally speaking, fine'') = Some (str ''Fine'')"
  using assms by (simp_all add: text_eval regex_eval program_eval cong: bind_weak_cong)

lemma whitespace_twice:
  assumes "unicode_ok U"
  shows "clean_whitespace U self (str ''a . . b'') = Some (str ''a. . b'')"
    and "clean_whitespace U self (str ''a. . b'') = Some (str ''a.. b'')"
  using assms by (simp_all add: text_eval regex_eval program_eval cong: bind_weak_cong)

text \<open>
  Claim C3, as stated: each of the four stages is idempotent. It fails for two of them.
  \<open>remove_hedging_language\<close> deletes the inner phrase of
  \<open>Generally Generally speaking, speaking, fine\<close> and leaves a new one, which a second
  pass deletes. \<open>clean_whitespace\<close> turns \<open>a . . b\<close> into \<open>a. . b\<close>, because the space
  between the two full stops is consumed by the first match, and a second pass gives
  \<open>a.. b\<close>. The two inputs are in ASCII, so the table \<open>ascii_tables\<close> gives what the
  interpreter gives.
\<close>

theorem hedge_and_whitespace_not_idempotent:
  "remove_hedging_language ascii_tables (init False)
     (str ''Generally Generally speaking, speaking, fine'') \<bind>
     remove_hedging_language ascii_tables (init False) = Some (str ''Fine'') \<and>
   remove_hedging_language ascii_tables (init False)
     (str ''Generally Generally speaking, speaking, fine'') =
     Some (str ''Generally speaking, fine'') \<and>
   str ''Fine'' \<noteq> str ''Generally speaking, fine'' \<and>
   clean_whitespace ascii_tables (init False) (str ''a . . b'') \<bind>
     clean_whitespace ascii_tables (init False) = Some (str ''a.. b'') \<and>
   clean_whitespace ascii_tables (init False) (str ''a . . b'') = Some (str ''a. . b'') \<and>
   str ''a.. b'' \<noteq> str ''a. . b''"
  by (simp add: hedge_twice[OF ascii_tables_ok] whitespace_twice[OF ascii_tables_ok])
    (simp add: str_def)

subsection \<open>The word table\<close>

lemma cip_length: "cip U f w a \<Longrightarrow> length w \<le> length a"
  by (induction U f w a rule: cip.induct) auto

lemma cip_append: "cip U f (u @ v) a \<longleftrightarrow> cip U f u a \<and> cip U f v (drop (length u) a)"
  by (induction U f u a rule: cip.induct) auto

lemma cip_append_text: "length w \<le> length a \<Longrightarrow> cip U f w (a @ o') \<longleftrightarrow> cip U f w a"
  by (induction U f w a rule: cip.induct) auto

lemma after_append: "after (u @ v) s = after v (after u s)"
  by (cases s) (simp add: after_def take_add add.commute)

lemma after_state: "after w (b, a, g) = (rev (take (length w) a) @ b, drop (length w) a, g)"
  by (simp add: after_def)

lemma ms_frag:
  "frag r \<Longrightarrow> set (ms U f r (b, a, g)) = {after w (b, a, g) | w. w \<in> set (lang r) \<and> cip U f w a}"
proof (induction r arbitrary: b a g)
  case Eps
  then show ?case
    by (auto simp: after_def)
next
  case (Chr d)
  then show ?case
    by (cases a) (auto simp: after_def)
next
  case (Seq r1 r2)
  then have f: "frag r1" "frag r2"
    by simp_all
  have step: "set (ms U f r2 (after u (b, a, g))) =
      {after (u @ v) (b, a, g) | v. v \<in> set (lang r2) \<and> cip U f v (drop (length u) a)}" for u
    using Seq.IH(2)[OF f(2), of "rev (take (length u) a) @ b" "drop (length u) a" g]
    by (simp add: after_append) (simp add: after_state)
  show ?case
  proof (rule set_eqI, rule iffI)
    fix s
    assume "s \<in> set (ms U f (Seq r1 r2) (b, a, g))"
    then obtain s1 where s1: "s1 \<in> set (ms U f r1 (b, a, g))" "s \<in> set (ms U f r2 s1)"
      by auto
    from s1(1) Seq.IH(1)[OF f(1)] obtain u where u: "u \<in> set (lang r1)" "cip U f u a"
        "s1 = after u (b, a, g)"
      by auto
    from s1(2) u(3) step[of u]
    obtain v where v: "v \<in> set (lang r2)" "cip U f v (drop (length u) a)"
        "s = after (u @ v) (b, a, g)"
      by auto
    from u v have "u @ v \<in> set (lang (Seq r1 r2))" "cip U f (u @ v) a"
      by (auto simp: cip_append)
    with v(3) show "s \<in> {after w (b, a, g) | w. w \<in> set (lang (Seq r1 r2)) \<and> cip U f w a}"
      by blast
  next
    fix s
    assume "s \<in> {after w (b, a, g) | w. w \<in> set (lang (Seq r1 r2)) \<and> cip U f w a}"
    then obtain u v where uv: "u \<in> set (lang r1)" "v \<in> set (lang r2)" "cip U f (u @ v) a"
        "s = after (u @ v) (b, a, g)"
      by auto
    then have "after u (b, a, g) \<in> set (ms U f r1 (b, a, g))"
      using Seq.IH(1)[OF f(1)] by (auto simp: cip_append)
    moreover have "s \<in> set (ms U f r2 (after u (b, a, g)))"
      using uv step[of u] by (auto simp: cip_append)
    ultimately show "s \<in> set (ms U f (Seq r1 r2) (b, a, g))"
      by auto
  qed
next
  case (Alt r1 r2)
  then show ?case
    by auto
next
  case (Opt r)
  then show ?case
    by (auto simp: after_def)
qed simp_all

lemma ms_body:
  "body_ok r \<Longrightarrow>
   set (ms U f r (b, a, g)) =
     {after w (b, a, g) | w. w \<in> set (body_lang r) \<and> cip U f w a \<and> bnd U (after w (b, a, g))}"
proof (induction r arbitrary: b a g)
  case (Seq x r)
  show ?case
  proof (cases "x = WordB \<and> r = Eps")
    case True
    then show ?thesis
      by (auto simp: after_def bnd_def)
  next
    case False
    with Seq.prems have f: "frag x" "body_ok r"
      by simp_all
    have step: "set (ms U f r (after u (b, a, g))) =
        {after (u @ v) (b, a, g) | v. v \<in> set (body_lang r) \<and> cip U f v (drop (length u) a) \<and>
           bnd U (after (u @ v) (b, a, g))}" for u
      using Seq.IH(2)[OF f(2), of "rev (take (length u) a) @ b" "drop (length u) a" g]
      by (simp add: after_append) (simp add: after_state)
    show ?thesis
    proof (rule set_eqI, rule iffI)
      fix s
      assume "s \<in> set (ms U f (Seq x r) (b, a, g))"
      then obtain s1 where s1: "s1 \<in> set (ms U f x (b, a, g))" "s \<in> set (ms U f r s1)"
        by auto
      from s1(1) ms_frag[OF f(1)] obtain u where u: "u \<in> set (lang x)" "cip U f u a"
          "s1 = after u (b, a, g)"
        by auto
      from s1(2) u(3) step[of u]
      obtain v where v: "v \<in> set (body_lang r)" "cip U f v (drop (length u) a)"
          "s = after (u @ v) (b, a, g)" "bnd U (after (u @ v) (b, a, g))"
        by auto
      from u v False have "u @ v \<in> set (body_lang (Seq x r))" "cip U f (u @ v) a"
        by (auto simp: cip_append)
      with v(3,4) show "s \<in> {after w (b, a, g) | w. w \<in> set (body_lang (Seq x r)) \<and> cip U f w a \<and>
          bnd U (after w (b, a, g))}"
        by blast
    next
      fix s
      assume "s \<in> {after w (b, a, g) | w. w \<in> set (body_lang (Seq x r)) \<and> cip U f w a \<and>
          bnd U (after w (b, a, g))}"
      with False obtain u v where uv: "u \<in> set (lang x)" "v \<in> set (body_lang r)" "cip U f (u @ v) a"
          "s = after (u @ v) (b, a, g)" "bnd U (after (u @ v) (b, a, g))"
        by auto
      then have "after u (b, a, g) \<in> set (ms U f x (b, a, g))"
        using ms_frag[OF f(1)] by (auto simp: cip_append)
      moreover have "s \<in> set (ms U f r (after u (b, a, g)))"
        using uv step[of u] by (auto simp: cip_append)
      ultimately show "s \<in> set (ms U f (Seq x r) (b, a, g))"
        by auto
    qed
  qed
qed simp_all

lemma ms_rule:
  assumes "rule_ok p"
  shows "set (ms U f p (b, a, g)) =
     {after w (b, a, g) | w. w \<in> set (rule_lang p) \<and> cip U f w a \<and> at_boundary U b a \<and>
        bnd U (after w (b, a, g))}"
proof -
  from assms obtain r where p: "p = Seq WordB r" "body_ok r"
    by (cases p rule: rule_ok.cases) auto
  show ?thesis
    using ms_body[OF p(2), of U f b a g] by (auto simp: p(1))
qed

text \<open>What a match of a rule pattern is, and when there is one.\<close>

lemma rule_match_sound:
  assumes "rule_ok p" and "match_here U f p adv b a = Some (n, g)"
  shows "\<exists>w\<in>set (rule_lang p). length w = n \<and> cip U f w a \<and> at_boundary U b a \<and>
    at_boundary U (rev (take n a) @ b) (drop n a)"
proof -
  from match_here_state[OF assms(2)] ms_rule[OF assms(1), of U f b a "[]"]
  obtain w where w: "w \<in> set (rule_lang p)" "cip U f w a" "at_boundary U b a"
      "bnd U (after w (b, a, []))" "(rev (take n a) @ b, drop n a, g) = after w (b, a, [])"
    by auto
  from w(5) have "length (drop n a) = length (drop (length w) a)"
    by (simp add: after_state)
  with match_here_le[OF assms(2)] cip_length[OF w(2)] have "n = length w"
    by simp
  with w show ?thesis
    by (auto simp: bnd_def after_state)
qed

lemma rule_match_complete:
  assumes "rule_ok p" and "w \<in> set (rule_lang p)" and "cip U f w a" and "at_boundary U b a"
    and "at_boundary U (rev (take (length w) a) @ b) (drop (length w) a)"
  shows "match_here U f p False b a \<noteq> None"
proof -
  have "after w (b, a, []) \<in> set (ms U f p (b, a, []))"
    using ms_rule[OF assms(1), of U f b a "[]"] assms(2-5) by (auto simp: bnd_def after_state)
  then have "ms U f p (b, a, []) \<noteq> []"
    by auto
  then show ?thesis
    by (cases "ms U f p (b, a, [])") (auto simp: match_here_def)
qed

lemma at_boundary_wdn: "at_boundary U b a \<longleftrightarrow> wdn U b \<noteq> wdn U a"
  by (simp add: at_boundary_def wdn_def)

lemma chr_eq_word:
  "unicode_ok U \<Longrightarrow> d < 128 \<Longrightarrow> chr_eq U f d c \<Longrightarrow> is_word U c = is_word U d"
  using ok_folds_word[of U d c] by (auto simp: chr_eq_def split: if_splits)

lemma pwords_ok: "pwords U L \<Longrightarrow> unicode_ok U"
  by (simp add: pwords_def)

lemma pwords_ascii: "pwords U L \<Longrightarrow> w \<in> set L \<Longrightarrow> \<forall>d\<in>set w. d < 128"
  by (auto simp: pwords_def pword_def list_all_iff)

lemma pwords_wordy:
  "pwords U L \<Longrightarrow> w \<in> set L \<Longrightarrow> w \<noteq> [] \<and> is_word U (hd w) \<and> is_word U (last w)"
  by (auto simp: pwords_def pword_def wordy_def list_all_iff)

lemma pwords_word:
  assumes "pwords U L" and "w \<in> set L" and "i < length w" and "chr_eq U f (w ! i) c"
  shows "is_word U c = is_word U (w ! i)"
proof -
  from pwords_ascii[OF assms(1,2)] assms(3) have "w ! i < 128"
    by simp
  from chr_eq_word[OF pwords_ok[OF assms(1)] this assms(4)] show ?thesis .
qed

lemma cip_nth: "cip U f w a \<Longrightarrow> i < length w \<Longrightarrow> chr_eq U f (w ! i) (a ! i)"
proof (induction U f w a arbitrary: i rule: cip.induct)
  case (3 U f d w c a)
  then show ?case
    by (cases i) auto
qed auto

lemma cip_take: "cip U f w (take k a) \<Longrightarrow> cip U f w a"
proof (induction U f w a arbitrary: k rule: cip.induct)
  case (3 U f d w c a)
  then show ?case
    by (cases k) auto
qed auto

lemma cip_split:
  "cip U f w (x @ y) \<Longrightarrow> length x \<le> length w \<Longrightarrow>
   cip U f (take (length x) w) x \<and> cip U f (drop (length x) w) y"
proof (induction x arbitrary: w)
  case Nil
  then show ?case
    by simp
next
  case (Cons c x)
  then show ?case
    by (cases w) auto
qed

lemma wdn_rev_take:
  "0 < n \<Longrightarrow> n \<le> length a \<Longrightarrow> wdn U (rev (take n a) @ b) = is_word U (a ! (n - 1))"
proof -
  assume n: "0 < n" "n \<le> length a"
  then have "take n a \<noteq> []"
    by auto
  then have "hd (rev (take n a) @ b) = last (take n a)"
    by (simp add: hd_rev)
  also have "\<dots> = a ! (n - 1)"
    using n \<open>take n a \<noteq> []\<close> by (simp add: last_conv_nth min_def)
  finally show ?thesis
    using \<open>take n a \<noteq> []\<close> by (cases "rev (take n a) @ b") (auto simp: wdn_def)
qed

lemma wdn_drop: "k < length a \<Longrightarrow> wdn U (drop k a) = is_word U (a ! k)"
  by (cases "drop k a") (auto simp: wdn_def hd_drop_conv_nth dest: arg_cong[where f = hd])

text \<open>A match of a rule pattern: its length, the word it is, and what surrounds it.\<close>

lemma rule_match:
  assumes "rule_ok p" and "pwords U (rule_lang p)"
    and "match_here U f p adv b a = Some (n, g)"
  shows "\<exists>w\<in>set (rule_lang p). length w = n \<and> cip U f w a \<and> 0 < n \<and> n \<le> length a \<and>
    \<not> wdn U b \<and> \<not> wdn U (drop n a) \<and> is_word U (a ! 0) \<and> is_word U (a ! (n - 1))"
proof -
  from rule_match_sound[OF assms(1,3)] obtain w where w: "w \<in> set (rule_lang p)"
      "length w = n" "cip U f w a" "at_boundary U b a" "at_boundary U (rev (take n a) @ b) (drop n a)"
    by blast
  from pwords_wordy[OF assms(2) w(1)]
  have wy: "w \<noteq> []" "is_word U (hd w)" "is_word U (last w)"
    by simp_all
  from wy(1) w(2) have n: "0 < n"
    by auto
  from cip_length[OF w(3)] w(2) have le: "n \<le> length a"
    by simp
  from n w(2) have "chr_eq U f (w ! 0) (a ! 0)"
    using cip_nth[OF w(3), of 0] by simp
  from pwords_word[OF assms(2) w(1) _ this] wy n w(2) have first: "is_word U (a ! 0)"
    by (simp add: hd_conv_nth)
  from n w(2) have "chr_eq U f (w ! (n - 1)) (a ! (n - 1))"
    using cip_nth[OF w(3), of "n - 1"] by simp
  from pwords_word[OF assms(2) w(1) _ this] wy n w(2) have lst: "is_word U (a ! (n - 1))"
    by (simp add: last_conv_nth)
  from first n le have "wdn U a"
    by (cases a) (auto simp: wdn_def)
  with w(4) have "\<not> wdn U b"
    by (simp add: at_boundary_wdn)
  moreover from w(5) lst n le have "\<not> wdn U (drop n a)"
    by (simp add: at_boundary_wdn wdn_rev_take)
  ultimately show ?thesis
    using w n le first lst by blast
qed

lemma rule_occ_match:
  assumes "rule_ok p" and "pwords U (rule_lang p)" and "occ_at U f (rule_lang p) (wdn U b) a"
  shows "match_here U f p False b a \<noteq> None"
proof -
  from assms(3) obtain w where w: "w \<in> set (rule_lang p)" "cip U f w a"
      "\<not> wdn U (drop (length w) a)" "\<not> wdn U b"
    by (auto simp: occ_at_def list_ex_iff)
  from pwords_wordy[OF assms(2) w(1)]
  have wy: "w \<noteq> []" "is_word U (hd w)" "is_word U (last w)"
    by simp_all
  from wy(1) have "chr_eq U f (w ! 0) (a ! 0)"
    using cip_nth[OF w(2), of 0] by simp
  from pwords_word[OF assms(2) w(1) _ this] wy have "is_word U (a ! 0)"
    by (simp add: hd_conv_nth)
  moreover from cip_length[OF w(2)] wy(1) have "a \<noteq> []"
    by auto
  ultimately have "wdn U a"
    by (cases a) (auto simp: wdn_def)
  with w(4) have b1: "at_boundary U b a"
    by (simp add: at_boundary_wdn)
  from wy(1) have "chr_eq U f (w ! (length w - 1)) (a ! (length w - 1))"
    using cip_nth[OF w(2), of "length w - 1"] by simp
  from pwords_word[OF assms(2) w(1) _ this] wy have "is_word U (a ! (length w - 1))"
    by (simp add: last_conv_nth)
  with w(3) cip_length[OF w(2)] wy(1)
  have b2: "at_boundary U (rev (take (length w) a) @ b) (drop (length w) a)"
    by (simp add: at_boundary_wdn wdn_rev_take)
  from rule_match_complete[OF assms(1) w(1,2) b1 b2] show ?thesis .
qed

lemma subst_literal_out: "subst (literal r) ss = Some (concat (map (seg_out r) ss))"
proof (induction ss)
  case Nil
  then show ?case
    by simp
next
  case (Cons s ss)
  then show ?case
    by (cases s) (simp_all add: literal_def)
qed

lemma re_sub_outp: "re_sub U f q (literal r) t = Some (outp U f q r [] t)"
  by (simp add: re_sub_def outp_def subst_literal_out)

lemma outp_Nil:
  assumes "rule_ok q" and "pwords U (rule_lang q)"
  shows "outp U f q r b [] = []"
proof -
  have "match_here U f q False b [] = None"
  proof (cases "match_here U f q False b []")
    case (Some x)
    obtain n g where "x = (n, g)"
      by (cases x)
    with Some rule_match[OF assms, of f False b "[]" n g] show ?thesis
      by auto
  qed simp
  then show ?thesis
    by (simp add: outp_def scan_end)
qed

lemma outp_skip:
  "match_here U f q False b (c # cs) = None \<Longrightarrow> outp U f q r b (c # cs) = c # outp U f q r (c # b) cs"
  by (simp add: outp_def scan_skip)

lemma outp_match:
  assumes "rule_ok q" and "pwords U (rule_lang q)"
    and "match_here U f q False b a = Some (n, g)"
  shows "outp U f q r b a = r @ outp U f q r (rev (take n a) @ b) (drop n a)"
proof -
  from rule_match[OF assms] obtain n' where "n = Suc n'"
    by (cases n) auto
  with scan_match[of U f q False b a n' g] assms(3) show ?thesis
    by (simp add: outp_def)
qed

lemma outp_nonword:
  assumes "rule_ok q" and "pwords U (rule_lang q)" and "\<not> wdn U a"
  shows "\<not> wdn U (outp U f q r b a)"
proof (cases a)
  case Nil
  with outp_Nil[OF assms(1,2)] show ?thesis
    by (simp add: wdn_def)
next
  case (Cons c cs)
  with assms(3) have c: "\<not> is_word U c"
    by (simp add: wdn_def)
  have "match_here U f q False b (c # cs) = None"
  proof (cases "match_here U f q False b (c # cs)")
    case (Some x)
    obtain n g where "x = (n, g)"
      by (cases x)
    with Some rule_match[OF assms(1,2), of f False b "c # cs" n g] c show ?thesis
      by auto
  qed simp
  with Cons c show ?thesis
    by (simp add: outp_skip wdn_def)
qed

text \<open>The output up to the first replacement.\<close>

lemma outp_first:
  assumes "rule_ok q" and "pwords U (rule_lang q)"
  shows "outp U f q r b a = a \<or>
    (\<exists>k n g. k < length a \<and> match_here U f q False (rev (take k a) @ b) (drop k a) = Some (n, g) \<and>
       outp U f q r b a = take k a @ r @ outp U f q r (rev (take (k + n) a) @ b) (drop (k + n) a))"
proof (induction a arbitrary: b)
  case Nil
  then show ?case
    by (simp add: outp_Nil[OF assms])
next
  case (Cons c cs)
  show ?case
  proof (cases "match_here U f q False b (c # cs)")
    case None
    from Cons.IH[of "c # b"] show ?thesis
    proof
      assume "outp U f q r (c # b) cs = cs"
      with None show ?thesis
        by (simp add: outp_skip)
    next
      assume "\<exists>k n g. k < length cs \<and>
        match_here U f q False (rev (take k cs) @ c # b) (drop k cs) = Some (n, g) \<and>
        outp U f q r (c # b) cs = take k cs @ r @ outp U f q r (rev (take (k + n) cs) @ c # b) (drop (k + n) cs)"
      then obtain k n g where k: "k < length cs"
          "match_here U f q False (rev (take k cs) @ c # b) (drop k cs) = Some (n, g)"
          "outp U f q r (c # b) cs = take k cs @ r @ outp U f q r (rev (take (k + n) cs) @ c # b) (drop (k + n) cs)"
        by blast
      have "Suc k < length (c # cs) \<and>
          match_here U f q False (rev (take (Suc k) (c # cs)) @ b) (drop (Suc k) (c # cs)) = Some (n, g) \<and>
          outp U f q r b (c # cs) = take (Suc k) (c # cs) @ r @
            outp U f q r (rev (take (Suc k + n) (c # cs)) @ b) (drop (Suc k + n) (c # cs))"
        using k None by (simp add: outp_skip)
      then show ?thesis
        by blast
    qed
  next
    case (Some x)
    obtain n g where x: "x = (n, g)"
      by (cases x)
    have "0 < length (c # cs) \<and>
        match_here U f q False (rev (take 0 (c # cs)) @ b) (drop 0 (c # cs)) = Some (n, g) \<and>
        outp U f q r b (c # cs) = take 0 (c # cs) @ r @
          outp U f q r (rev (take (0 + n) (c # cs)) @ b) (drop (0 + n) (c # cs))"
      using Some x outp_match[OF assms, of f b "c # cs" n g r] by simp
    then show ?thesis
      by blast
  qed
qed

lemma agree_overlap:
  assumes "cip U f w (r @ o')" and "\<not> wdn U (drop (length w) (r @ o'))" and "\<not> wdn U o'"
    and "unicode_ok U" and "\<forall>d\<in>set w. d < 128"
  shows "agree U f w r"
proof (cases "length w \<le> length r")
  case True
  with assms(1) have c: "cip U f w r"
    by (simp add: cip_append_text)
  show ?thesis
  proof (cases "length w = length r")
    case True
    with c show ?thesis
      by (simp add: agree_def)
  next
    case False
    with True have lt: "length w < length r"
      by simp
    then have "wdn U (drop (length w) (r @ o')) = is_word U (r ! length w)"
      using wdn_drop[of "length w" "r @ o'"] by (simp add: nth_append)
    with assms(2) c True show ?thesis
      by (simp add: agree_def)
  qed
next
  case False
  then have lt: "length r < length w"
    by simp
  from cip_split[OF assms(1)] lt have c: "cip U f (take (length r) w) r" "cip U f (drop (length r) w) o'"
    by simp_all
  from lt have ne: "drop (length r) w \<noteq> []"
    by simp
  with c(2) obtain x xs where o': "o' = x # xs"
    by (cases o'; cases "drop (length r) w") auto
  from cip_nth[OF c(2), of 0] ne have "chr_eq U f (w ! length r) x"
    using lt by (simp add: o')
  moreover from assms(5) lt have "w ! length r < 128"
    by simp
  ultimately have "is_word U x = is_word U (w ! length r)"
    using chr_eq_word[OF assms(4)] by blast
  with assms(3) o' have "\<not> is_word U (w ! length r)"
    by (simp add: wdn_def)
  with c(1) False show ?thesis
    by (simp add: agree_def)
qed

lemma occ_append:
  "occ U f L pw (x @ y) \<Longrightarrow>
   (\<exists>d<length x. occ_at U f L (if d = 0 then pw else is_word U (x ! (d - 1))) (drop d x @ y)) \<or>
   occ U f L (if x = [] then pw else is_word U (last x)) y"
proof (induction x arbitrary: pw)
  case Nil
  then show ?case
    by simp
next
  case (Cons c x)
  from Cons.prems have "occ_at U f L pw (c # x @ y) \<or> occ U f L (is_word U c) (x @ y)"
    by simp
  then show ?case
  proof
    assume "occ_at U f L pw (c # x @ y)"
    then have "0 < length (c # x) \<and>
        occ_at U f L (if (0::nat) = 0 then pw else is_word U ((c # x) ! (0 - 1))) (drop 0 (c # x) @ y)"
      by simp
    then show ?thesis
      by blast
  next
    assume "occ U f L (is_word U c) (x @ y)"
    from Cons.IH[OF this] show ?thesis
    proof
      assume "\<exists>d<length x. occ_at U f L (if d = 0 then is_word U c else is_word U (x ! (d - 1))) (drop d x @ y)"
      then obtain d where d: "d < length x"
          "occ_at U f L (if d = 0 then is_word U c else is_word U (x ! (d - 1))) (drop d x @ y)"
        by blast
      have "Suc d < length (c # x) \<and>
          occ_at U f L (if Suc d = 0 then pw else is_word U ((c # x) ! (Suc d - 1))) (drop (Suc d) (c # x) @ y)"
        using d by (cases d) auto
      then show ?thesis
        by blast
    next
      assume "occ U f L (if x = [] then is_word U c else is_word U (last x)) y"
      then show ?thesis
        by auto
    qed
  qed
qed

lemma occ_at_split:
  "\<not> occ U f L pw (x @ y) \<Longrightarrow> y \<noteq> [] \<Longrightarrow> \<not> occ_at U f L (if x = [] then pw else is_word U (last x)) y"
proof (induction x arbitrary: pw)
  case Nil
  then show ?case
    by (cases y) auto
next
  case (Cons c x)
  from Cons.prems have "\<not> occ U f L (is_word U c) (x @ y)"
    by simp
  from Cons.IH[OF this Cons.prems(2)] show ?case
    by auto
qed

lemma occ_at_Nil: "pwords U L \<Longrightarrow> \<not> occ_at U f L pw []"
proof -
  assume L: "pwords U L"
  have "\<not> cip U f w []" if "w \<in> set L" for w
  proof -
    from pwords_wordy[OF L that] have "w \<noteq> []"
      by simp
    then show ?thesis
      by (cases w) simp_all
  qed
  then show ?thesis
    by (auto simp: occ_at_def list_ex_iff)
qed

lemma no_occ_out:
  assumes q: "rule_ok q" "pwords U (rule_lang q)"
    and r: "wordy U r"
    and L: "pwords U L"
    and nc: "noclash U f L r"
    and G: "\<And>b' a'. rev b' @ a' = T \<Longrightarrow> match_here U f q False b' a' = None \<Longrightarrow>
               \<not> occ_at U f L (wdn U b') a'"
  shows "rev b @ a = T \<Longrightarrow> \<not> occ U f L (wdn U b) (outp U f q r b a)"
proof (induction "length a" arbitrary: a b rule: less_induct)
  case less
  have in_clash: False
    if w: "w \<in> set L" and d: "d < length r" and c: "clash_in U f w r d" for w d
    using nc w d c by (auto simp: noclash_def list_all_iff)
  have left_clash: False
    if w: "w \<in> set L" and k: "0 < k" "k < length w" and c: "clash_left U f w r k" for w k
    using nc w k c by (auto simp: noclash_def list_all_iff)
  show ?case
  proof (cases a)
    case Nil
    then show ?thesis
      by (simp add: outp_Nil[OF q])
  next
    case (Cons c cs)
    show ?thesis
    proof (cases "match_here U f q False b a")
      case None
      let ?o = "outp U f q r (c # b) cs"
      from None Cons have out: "outp U f q r b a = c # ?o"
        by (simp add: outp_skip)
      have "\<not> occ U f L (wdn U (c # b)) ?o"
        using less.hyps[of cs "c # b"] less.prems Cons by simp
      then have tail: "\<not> occ U f L (is_word U c) ?o"
        by (simp add: wdn_def)
      have here: "\<not> occ_at U f L (wdn U b) (c # ?o)"
      proof
        assume "occ_at U f L (wdn U b) (c # ?o)"
        then obtain w where w: "w \<in> set L" "cip U f w (c # ?o)"
            "\<not> wdn U (drop (length w) (c # ?o))" "\<not> wdn U b"
          by (auto simp: occ_at_def list_ex_iff)
        from outp_first[OF q, of f r "c # b" cs] show False
        proof
          assume "?o = cs"
          with w have "occ_at U f L (wdn U b) a"
            by (auto simp: occ_at_def list_ex_iff Cons)
          with G[OF less.prems None] show False
            by simp
        next
          assume "\<exists>k n g. k < length cs \<and>
            match_here U f q False (rev (take k cs) @ c # b) (drop k cs) = Some (n, g) \<and>
            ?o = take k cs @ r @ outp U f q r (rev (take (k + n) cs) @ c # b) (drop (k + n) cs)"
          then obtain k n g where k: "k < length cs"
              "match_here U f q False (rev (take k cs) @ c # b) (drop k cs) = Some (n, g)"
              "?o = take k cs @ r @ outp U f q r (rev (take (k + n) cs) @ c # b) (drop (k + n) cs)"
            by blast
          let ?o2 = "outp U f q r (rev (take (k + n) cs) @ c # b) (drop (k + n) cs)"
          let ?K = "Suc k"
          from rule_match[OF q k(2)] have m: "\<not> wdn U (rev (take k cs) @ c # b)"
              "\<not> wdn U (drop n (drop k cs))"
            by auto
          have whole: "c # ?o = take ?K a @ r @ ?o2"
            using k(3) Cons by simp
          have Kle: "?K \<le> length a"
            using k(1) Cons by simp
          have "rev (take k cs) @ c # b = rev (take ?K a) @ b"
            by (simp add: Cons)
          with m(1) have before: "\<not> is_word U (a ! k)"
            using wdn_rev_take[of ?K a U b] Kle by simp
          from m(2) have o2: "\<not> wdn U ?o2"
            using outp_nonword[OF q, of "drop (k + n) cs"] by (simp add: add.commute)
          consider "length w < ?K" | "length w = ?K" | "?K < length w"
            by linarith
          then show False
          proof cases
            case 1
            with w(2) whole have "cip U f w (take ?K a)"
              using cip_append_text[of w "take ?K a" U f "r @ ?o2"] Kle by simp
            then have c1: "cip U f w a"
              by (rule cip_take)
            from 1 Kle have "wdn U (drop (length w) (c # ?o)) = is_word U (a ! length w)"
              unfolding whole using wdn_drop[of "length w" "take ?K a @ r @ ?o2"]
              by (simp add: nth_append)
            also from 1 Kle have "\<dots> = wdn U (drop (length w) a)"
              using wdn_drop[of "length w" a] by simp
            finally have "\<not> wdn U (drop (length w) a)"
              using w(3) by simp
            with c1 w(1,4) have "occ_at U f L (wdn U b) a"
              by (auto simp: occ_at_def list_ex_iff)
            with G[OF less.prems None] show False
              by simp
          next
            case 2
            then have "drop (length w) (c # ?o) = r @ ?o2"
              unfolding whole using Kle by simp
            with w(3) r show False
              by (cases r) (auto simp: wdn_def wordy_def)
          next
            case 3
            from w(2) have "cip U f w (take ?K a @ r @ ?o2)"
              by (simp only: whole)
            from cip_split[OF this] 3 Kle
            have s: "cip U f (take ?K w) (take ?K a)" "cip U f (drop ?K w) (r @ ?o2)"
              by simp_all
            from cip_nth[OF s(1), of k] 3 Kle have "chr_eq U f (w ! k) (a ! k)"
              by simp
            from pwords_word[OF L w(1) _ this] 3 before have nb: "\<not> is_word U (w ! k)"
              by simp
            from w(3) 3 Kle have "\<not> wdn U (drop (length (drop ?K w)) (r @ ?o2))"
              unfolding whole by simp
            moreover from pwords_ascii[OF L w(1)] have "\<forall>d\<in>set (drop ?K w). d < 128"
              by (meson in_set_dropD)
            ultimately have "agree U f (drop ?K w) r"
              using agree_overlap[OF s(2) _ o2 pwords_ok[OF L]] by blast
            with nb have "clash_left U f w r ?K"
              by (simp add: clash_left_def)
            with left_clash[OF w(1) _ 3] show False
              by simp
          qed
        qed
      qed
      from here tail show ?thesis
        by (simp add: out)
    next
      case (Some x)
      obtain n g where x: "x = (n, g)"
        by (cases x)
      with Some have mh: "match_here U f q False b a = Some (n, g)"
        by simp
      from rule_match[OF q mh] have m: "0 < n" "n \<le> length a" "\<not> wdn U (drop n a)"
          "is_word U (a ! (n - 1))"
        by auto
      let ?o = "outp U f q r (rev (take n a) @ b) (drop n a)"
      from outp_match[OF q mh] have out: "outp U f q r b a = r @ ?o"
        by simp
      have "\<not> occ U f L (wdn U (rev (take n a) @ b)) ?o"
        using less.hyps[of "drop n a" "rev (take n a) @ b"] less.prems m(1,2) Cons by simp
      then have tail: "\<not> occ U f L True ?o"
        using wdn_rev_take[OF m(1,2), of U b] m(4) by simp
      from m(3) have o: "\<not> wdn U ?o"
        using outp_nonword[OF q] by simp
      from r have r': "r \<noteq> []" "is_word U (last r)"
        by (simp_all add: wordy_def)
      show ?thesis
      proof
        assume "occ U f L (wdn U b) (outp U f q r b a)"
        then have "occ U f L (wdn U b) (r @ ?o)"
          by (simp add: out)
        from occ_append[OF this] tail r'
        obtain d where d: "d < length r"
            "occ_at U f L (if d = 0 then wdn U b else is_word U (r ! (d - 1))) (drop d r @ ?o)"
          by auto
        then obtain w where w: "w \<in> set L" "cip U f w (drop d r @ ?o)"
            "\<not> wdn U (drop (length w) (drop d r @ ?o))"
            "d = 0 \<or> \<not> is_word U (r ! (d - 1))"
          by (auto simp: occ_at_def list_ex_iff split: if_splits)
        from agree_overlap[OF w(2,3) o pwords_ok[OF L] pwords_ascii[OF L w(1)]] w(4)
        have "clash_in U f w r d"
          by (simp add: clash_in_def)
        with in_clash[OF w(1) d(1)] show False
          by simp
      qed
    qed
  qed
qed

lemma out_self:
  assumes "rule_ok q" and "pwords U (rule_lang q)" and "wordy U r"
    and "noclash U f (rule_lang q) r"
  shows "\<not> occ U f (rule_lang q) False (outp U f q r [] t)"
proof -
  have "\<not> occ U f (rule_lang q) (wdn U []) (outp U f q r [] t)"
  proof (rule no_occ_out[OF assms(1,2,3,2,4), where T = t])
    fix b' a'
    assume "match_here U f q False b' a' = None"
    then show "\<not> occ_at U f (rule_lang q) (wdn U b') a'"
      using rule_occ_match[OF assms(1,2), of f b' a'] by blast
  qed simp
  then show ?thesis
    by (simp add: wdn_def)
qed

lemma out_other:
  assumes "rule_ok q" and "pwords U (rule_lang q)" and "wordy U r"
    and "pwords U L" and "noclash U f L r" and "\<not> occ U f L False t"
  shows "\<not> occ U f L False (outp U f q r [] t)"
proof -
  have "\<not> occ U f L (wdn U []) (outp U f q r [] t)"
  proof (rule no_occ_out[OF assms(1,2,3,4,5), where T = t])
    fix b' a'
    assume e: "rev b' @ a' = t"
    show "\<not> occ_at U f L (wdn U b') a'"
    proof (cases "a' = []")
      case True
      then show ?thesis
        using occ_at_Nil[OF assms(4)] by simp
    next
      case False
      from assms(6) e have "\<not> occ U f L False (rev b' @ a')"
        by simp
      from occ_at_split[OF this False] show ?thesis
        by (cases b') (auto simp: wdn_def)
    qed
  qed simp
  then show ?thesis
    by (simp add: wdn_def)
qed

lemma outp_fixed:
  assumes "rule_ok p" and "pwords U (rule_lang p)"
  shows "(\<And>b' a'. rev b' @ a' = rev b @ a \<Longrightarrow> a' \<noteq> [] \<Longrightarrow> \<not> occ_at U f (rule_lang p) (wdn U b') a') \<Longrightarrow>
    outp U f p r b a = a"
proof (induction a arbitrary: b)
  case Nil
  then show ?case
    by (simp add: outp_Nil[OF assms])
next
  case (Cons c cs)
  have "match_here U f p False b (c # cs) = None"
  proof (cases "match_here U f p False b (c # cs)")
    case (Some x)
    obtain n g where "x = (n, g)"
      by (cases x)
    with Some rule_match[OF assms, of f False b "c # cs" n g]
    have "occ_at U f (rule_lang p) (wdn U b) (c # cs)"
      by (auto simp: occ_at_def list_ex_iff)
    with Cons.prems[of b "c # cs"] show ?thesis
      by simp
  qed simp
  moreover have "outp U f p r (c # b) cs = cs"
  proof (rule Cons.IH)
    fix b' a'
    assume "rev b' @ a' = rev (c # b) @ cs" "a' \<noteq> []"
    then show "\<not> occ_at U f (rule_lang p) (wdn U b') a'"
      using Cons.prems[of b' a'] by simp
  qed
  ultimately show ?case
    by (simp add: outp_skip)
qed

lemma re_sub_fixed:
  assumes "rule_ok p" and "pwords U (rule_lang p)" and "\<not> occ U f (rule_lang p) False t"
  shows "re_sub U f p (literal r) t = Some t"
proof -
  have "outp U f p r [] t = t"
  proof (rule outp_fixed[OF assms(1,2)])
    fix b' a'
    assume e: "rev b' @ a' = rev [] @ t" "a' \<noteq> []"
    with assms(3) have "\<not> occ U f (rule_lang p) False (rev b' @ a')"
      by simp
    from occ_at_split[OF this e(2)] show "\<not> occ_at U f (rule_lang p) (wdn U b') a'"
      by (cases b') (auto simp: wdn_def)
  qed
  then show ?thesis
    by (simp add: re_sub_outp)
qed

lemma replace_each_no_occ:
  "rules_ok U f Ls rules \<Longrightarrow> list_all (pwords U) Ls \<Longrightarrow> \<forall>L\<in>set Ls. \<not> occ U f L False t \<Longrightarrow>
   replace_each U f rules t = Some u \<Longrightarrow> unicode_ok U \<Longrightarrow>
   (\<forall>L\<in>set Ls. \<not> occ U f L False u) \<and> (\<forall>(p, r)\<in>set rules. \<not> occ U f (rule_lang p) False u)"
proof (induction rules arbitrary: Ls t)
  case Nil
  then show ?case
    by simp
next
  case (Cons pr rules)
  obtain p r where pr: "pr = (p, r)"
    by (cases pr)
  from Cons.prems(1,5) pr have ok: "rule_ok p" "pwords U (rule_lang p)" "wordy U r"
      "noclash U f (rule_lang p) r" "\<forall>L\<in>set Ls. noclash U f L r" "rules_ok U f (rule_lang p # Ls) rules"
    by (simp_all add: list_all_iff pwords_def)
  let ?t = "outp U f p r [] t"
  from Cons.prems(4) pr have rest: "replace_each U f rules ?t = Some u"
    by (simp add: re_sub_outp)
  have a: "\<not> occ U f (rule_lang p) False ?t"
    by (rule out_self[OF ok(1,2,3,4)])
  have b: "\<not> occ U f L False ?t" if "L \<in> set Ls" for L
    using out_other[OF ok(1,2,3), of L f t] that Cons.prems(2,3) ok(5) by (auto simp: list_all_iff)
  have "list_all (pwords U) (rule_lang p # Ls)"
    using ok(2) Cons.prems(2) by simp
  moreover have "\<forall>L\<in>set (rule_lang p # Ls). \<not> occ U f L False ?t"
    using a b by simp
  ultimately have "(\<forall>L\<in>set (rule_lang p # Ls). \<not> occ U f L False u) \<and>
      (\<forall>(p, r)\<in>set rules. \<not> occ U f (rule_lang p) False u)"
    using Cons.IH[OF ok(6) _ _ rest Cons.prems(5)] by blast
  with pr show ?case
    by simp
qed

lemma rules_ok_each:
  "rules_ok U f Ls rules \<Longrightarrow> (p, r) \<in> set rules \<Longrightarrow> rule_ok p \<and> list_all (pword U) (rule_lang p)"
  by (induction U f Ls rules rule: rules_ok.induct) auto

lemma replace_each_fixed:
  "(\<And>p r. (p, r) \<in> set rules \<Longrightarrow>
      rule_ok p \<and> pwords U (rule_lang p) \<and> \<not> occ U f (rule_lang p) False u) \<Longrightarrow>
   replace_each U f rules u = Some u"
proof (induction rules)
  case Nil
  then show ?case
    by simp
next
  case (Cons pr rules)
  obtain p r where pr: "pr = (p, r)"
    by (cases pr)
  with Cons.prems[of p r] have "re_sub U f p (literal r) u = Some u"
    using re_sub_fixed by simp
  moreover have "replace_each U f rules u = Some u"
  proof (rule Cons.IH)
    fix p' r'
    assume "(p', r') \<in> set rules"
    then show "rule_ok p' \<and> pwords U (rule_lang p') \<and> \<not> occ U f (rule_lang p') False u"
      using Cons.prems[of p' r'] by simp
  qed
  ultimately show ?case
    by (simp add: pr)
qed

lemma replace_each_idem:
  assumes "rules_ok U f [] rules" and "replace_each U f rules t = Some u" and "unicode_ok U"
  shows "replace_each U f rules u = Some u"
proof (rule replace_each_fixed)
  fix p r
  assume m: "(p, r) \<in> set rules"
  from replace_each_no_occ[OF assms(1) _ _ assms(2,3)] m have "\<not> occ U f (rule_lang p) False u"
    by auto
  with rules_ok_each[OF assms(1) m] assms(3)
  show "rule_ok p \<and> pwords U (rule_lang p) \<and> \<not> occ U f (rule_lang p) False u"
    by (simp add: pwords_def)
qed

lemma lefts_iff: "lefts U f r w \<longleftrightarrow> (\<forall>k. 0 < k \<and> k < length w \<longrightarrow> \<not> clash_left U f w r k)"
proof (induction U f r w rule: lefts.induct)
  case (1 U f r x y w)
  have "(\<forall>k. 0 < k \<and> k < length (x # y # w) \<longrightarrow> \<not> clash_left U f (x # y # w) r k) \<longleftrightarrow>
      \<not> clash_left U f (x # y # w) r 1 \<and>
      (\<forall>k. 0 < k \<and> k < length (y # w) \<longrightarrow> \<not> clash_left U f (x # y # w) r (Suc k))"
    (is "?A \<longleftrightarrow> ?B \<and> ?C")
  proof
    assume ?A
    then show "?B \<and> ?C"
      by auto
  next
    assume bc: "?B \<and> ?C"
    show ?A
    proof (intro allI impI)
      fix k
      assume k: "0 < k \<and> k < length (x # y # w)"
      show "\<not> clash_left U f (x # y # w) r k"
      proof (cases "k = 1")
        case True
        with bc show ?thesis
          by simp
      next
        case False
        with k obtain k' where "k = Suc k'" "0 < k'" "k' < length (y # w)"
          by (cases k) auto
        with bc show ?thesis
          by blast
      qed
    qed
  qed
  moreover have "clash_left U f (x # y # w) r (Suc k) = clash_left U f (y # w) r k" if "0 < k" for k
    using that by (cases k) (simp_all add: clash_left_def)
  moreover have "clash_left U f (x # y # w) r 1 \<longleftrightarrow> \<not> is_word U x \<and> agree U f (y # w) r"
    by (simp add: clash_left_def)
  ultimately show ?case
    using 1 by (cases "is_word U x"; cases "agree U f (y # w) r") auto
qed (auto simp: less_Suc_eq)

lemma inners_iff: "inners U f w r \<longleftrightarrow> (\<forall>d. 0 < d \<and> d < length r \<longrightarrow> \<not> clash_in U f w r d)"
proof (induction U f w r rule: inners.induct)
  case (1 U f w x y r)
  have "(\<forall>d. 0 < d \<and> d < length (x # y # r) \<longrightarrow> \<not> clash_in U f w (x # y # r) d) \<longleftrightarrow>
      \<not> clash_in U f w (x # y # r) 1 \<and>
      (\<forall>d. 0 < d \<and> d < length (y # r) \<longrightarrow> \<not> clash_in U f w (x # y # r) (Suc d))"
    (is "?A \<longleftrightarrow> ?B \<and> ?C")
  proof
    assume ?A
    then show "?B \<and> ?C"
      by auto
  next
    assume bc: "?B \<and> ?C"
    show ?A
    proof (intro allI impI)
      fix d
      assume d: "0 < d \<and> d < length (x # y # r)"
      show "\<not> clash_in U f w (x # y # r) d"
      proof (cases "d = 1")
        case True
        with bc show ?thesis
          by simp
      next
        case False
        with d obtain d' where "d = Suc d'" "0 < d'" "d' < length (y # r)"
          by (cases d) auto
        with bc show ?thesis
          by blast
      qed
    qed
  qed
  moreover have "clash_in U f w (x # y # r) (Suc d) = clash_in U f w (y # r) d" if "0 < d" for d
    using that by (cases d) (simp_all add: clash_in_def)
  moreover have "clash_in U f w (x # y # r) 1 \<longleftrightarrow> \<not> is_word U x \<and> agree U f w (y # r)"
    by (simp add: clash_in_def)
  ultimately show ?case
    using 1 by (cases "is_word U x"; cases "agree U f w (y # r)") auto
qed (auto simp: less_Suc_eq)

lemma noclash_walk:
  "noclash U f L r \<longleftrightarrow>
     list_all (\<lambda>w. if r = [] then lefts U f r w
                   else if agree U f w r then False
                   else if inners U f w r then lefts U f r w else False) L"
proof -
  have "(list_all (\<lambda>d. \<not> clash_in U f w r d) [0..<length r] \<and>
         list_all (\<lambda>k. \<not> clash_left U f w r k) [1..<length w]) \<longleftrightarrow>
        (if r = [] then lefts U f r w
         else if agree U f w r then False else if inners U f w r then lefts U f r w else False)" for w
  proof -
    have a: "list_all (\<lambda>k. \<not> clash_left U f w r k) [1..<length w] \<longleftrightarrow> lefts U f r w"
      by (auto simp: lefts_iff list_all_iff)
    have b: "list_all (\<lambda>d. \<not> clash_in U f w r d) [0..<length r] \<longleftrightarrow>
        (r = [] \<or> (\<not> agree U f w r \<and> inners U f w r))"
    proof (cases "r = []")
      case True
      then show ?thesis
        by simp
    next
      case False
      then have pos: "0 < length r"
        by simp
      have c0: "clash_in U f w r 0 = agree U f w r"
        by (simp add: clash_in_def)
      have "(\<forall>d\<in>set [0..<length r]. \<not> clash_in U f w r d) \<longleftrightarrow>
          \<not> clash_in U f w r 0 \<and> (\<forall>d. 0 < d \<and> d < length r \<longrightarrow> \<not> clash_in U f w r d)"
      proof
        assume A: "\<forall>d\<in>set [0..<length r]. \<not> clash_in U f w r d"
        with pos have "\<not> clash_in U f w r 0"
          by simp
        with A show "\<not> clash_in U f w r 0 \<and> (\<forall>d. 0 < d \<and> d < length r \<longrightarrow> \<not> clash_in U f w r d)"
          by simp
      next
        assume B: "\<not> clash_in U f w r 0 \<and> (\<forall>d. 0 < d \<and> d < length r \<longrightarrow> \<not> clash_in U f w r d)"
        show "\<forall>d\<in>set [0..<length r]. \<not> clash_in U f w r d"
        proof
          fix d
          assume "d \<in> set [0..<length r]"
          with B show "\<not> clash_in U f w r d"
            by (cases "d = 0") auto
        qed
      qed
      with False c0 show ?thesis
        by (simp add: list_all_iff inners_iff)
    qed
    show ?thesis
      unfolding a b by auto
  qed
  then show ?thesis
    by (simp add: noclash_def)
qed

lemma cip_step: "cip U f (d # w) (c # a) = (if chr_eq U f d c then cip U f w a else False)"
  by simp

lemma chr_eq_step:
  "chr_eq U f d c = (if c = d then True else if ignorecase f then folds U d c else False)"
  by (simp add: chr_eq_def)

lemma agree_step:
  "agree U f w r =
     (if length w \<le> length r
      then (if cip U f w r then (if length w = length r then True else \<not> is_word U (r ! length w)) else False)
      else (if cip U f (take (length r) w) r then \<not> is_word U (w ! length r) else False))"
  by (simp add: agree_def)

lemmas lex_eval = wordy_def pword_def noclash_walk agree_step chr_eq_step
  cip_step IGNORECASE_def ok_is_word ok_folds ascii_word_def ascii_letter_def ascii_islower_def
  ascii_isupper_def ascii_isdigit_def ascii_lower_def seqs_def lit_def str_def

lemma word_table_ok: "unicode_ok U \<Longrightarrow> rules_ok U IGNORECASE [] word_replacements_table"
  by (simp add: lex_eval word_replacements_table_def del: cip.simps(3))

lemma replace_ai_word_choices_idem:
  assumes "unicode_ok U" and "replace_ai_word_choices U (init aggr) text = Some u"
  shows "replace_ai_word_choices U (init aggr) u = Some u"
  using replace_each_idem[OF word_table_ok[OF assms(1)] _ assms(1), of "text" u] assms(2)
  by (simp add: replace_ai_word_choices_def init_def)

text \<open>
  Claim C3, amended. \<open>fix_punctuation_tells\<close> and \<open>replace_ai_word_choices\<close> are
  idempotent: for every text, applying the stage to its own output changes nothing.
  (The Hedge Remover and the Whitespace Normalizer are not idempotent.) Of the Unicode
  tables the proof uses the facts of \<open>unicode_ok\<close> only: \<open>str.upper\<close> gives no em
  dash, which keeps the output of the first stage free of em dashes, and what matches a
  letter of a rule under \<open>re.IGNORECASE\<close> is a word character, which keeps the word
  boundaries of a text where they are when a rule word is compared with it.
\<close>

theorem punctuation_and_words_idempotent:
  assumes ok: "unicode_ok U"
  shows "fix_punctuation_tells U self text \<bind> fix_punctuation_tells U self =
     fix_punctuation_tells U self text \<and>
   replace_ai_word_choices U (init aggr) text \<bind> replace_ai_word_choices U (init aggr) =
     replace_ai_word_choices U (init aggr) text"
proof -
  let ?t = "if em_dash \<in> set text then em_dash_sentences U text else text"
  obtain u where u: "fix_punctuation_tells U self text = Some u"
    using fix_punctuation_tells_total by blast
  then have e: "excessive_punctuation U ?t = Some u"
    by (simp add: fix_punctuation_tells_sentences)
  have "em_dash \<notin> set ?t"
    using em_dash_sentences_no_dash[OF ok] by simp
  with e have "em_dash \<notin> set u"
    using excessive_punctuation_no_dash by blast
  then have "fix_punctuation_tells U self u = excessive_punctuation U u"
    by (simp add: fix_punctuation_tells_sentences)
  with excessive_punctuation_idem[OF e] u have first: "fix_punctuation_tells U self text \<bind>
      fix_punctuation_tells U self = fix_punctuation_tells U self text"
    by simp
  obtain v where v: "replace_ai_word_choices U (init aggr) text = Some v"
    unfolding replace_ai_word_choices_def using replace_each_total by blast
  with replace_ai_word_choices_idem[OF ok v] have "replace_ai_word_choices U (init aggr) text \<bind>
      replace_ai_word_choices U (init aggr) = replace_ai_word_choices U (init aggr) text"
    by simp
  with first show ?thesis
    by blast
qed

theorem punctuation_and_words_idempotent_witness:
  "fix_punctuation_tells ascii_tables (init False) (str ''so '' @ [em_dash] @ str '' it goes!!'') \<bind>
     fix_punctuation_tells ascii_tables (init False) =
     fix_punctuation_tells ascii_tables (init False) (str ''so '' @ [em_dash] @ str '' it goes!!'') \<and>
   replace_ai_word_choices ascii_tables (init False) (str ''We delve and leverage'') \<bind>
     replace_ai_word_choices ascii_tables (init False) =
     replace_ai_word_choices ascii_tables (init False) (str ''We delve and leverage'')"
  using punctuation_and_words_idempotent[OF ascii_tables_ok] by blast

section \<open>Matches of the word table\<close>






end
